theory Spec2Isabelle
  imports Main "HOL-Library.Word"
begin

section \<open>The AnonymousSurvey contract (contracts/AnonymousSurvey.sol)\<close>

text \<open>
  A shallow embedding of the survey ledger. The conventions:
  \<^item> a \<open>uint256\<close> is a natural number; Solidity 0.8 arithmetic is checked, so every
    \<open>+\<close>, \<open>*\<close> and \<open>++\<close> of the source whose result would leave the range reverts with
    \<open>Panic\<close>, and that test is written out where the source computes; \<open>a - b\<close>
    occurs in the source only under the guard \<open>a > b\<close>;
  \<^item> an \<open>address\<close> is a 160-bit word, and \<open>address(0)\<close> is \<open>0\<close>;
  \<^item> an encrypted integer is represented by its plaintext: \<open>euint32\<close> is a 32-bit
    word, \<open>euint8\<close> an 8-bit word, \<open>ebool\<close> a \<open>bool\<close>;
  \<^item> a revert is the value \<open>Inl e\<close>: the call leaves no state behind;
  \<^item> the contract's balance, the block timestamp and the event log belong to the
    host; they are fields of the ledger next to the contract's own storage.
\<close>

type_synonym address = "160 word"
type_synonym euint32 = "32 word"
type_synonym euint8 = "8 word"
type_synonym ebool = bool

record survey =
  creator :: address
  question :: string
  options :: "string list"
  endTime :: nat
  rewardPool :: nat
  depositRequired :: nat
  rewardPerResponse :: nat
  totalResponses :: nat
  isActive :: bool
  resultsReleased :: bool
  encryptedVotes :: "nat \<Rightarrow> euint32"
  decryptedVotes :: "nat \<Rightarrow> 32 word"
  hasVoted :: "address \<Rightarrow> bool"
  hasWithdrawn :: "address \<Rightarrow> bool"

datatype event =
    SurveyCreated nat address string nat nat nat nat nat
  | ResponseSubmitted nat address nat nat
  | ParticipantWithdrawal nat address nat nat nat
  | ResultsReleased nat nat
  | DecryptionRequested nat nat euint32
  | VoteDecrypted nat nat "32 word"
  | RewardPoolWithdrawn nat address nat

datatype error =
    InvalidOptionCount
  | InvalidDuration
  | InsufficientRewardPool
  | InsufficientDeposit
  | SurveyNotFound
  | SurveyEnded
  | SurveyStillActive
  | AlreadyVoted
  | InvalidOptionIndex
  | ResultsNotReleased
  | NotCreator
  | NotParticipant
  | AlreadyWithdrawn
  | RewardPoolEmpty
  | Panic
  | Require string
  | InputProofRejected

record ledger =
  surveyCount :: nat
  surveys :: "nat \<Rightarrow> survey"
  balance :: nat
  block_timestamp :: nat
  events :: "event list"

definition MIN_OPTIONS :: nat where
  "MIN_OPTIONS = 2"

definition MAX_OPTIONS :: nat where
  "MAX_OPTIONS = 10"

definition MIN_DURATION :: nat where
  "MIN_DURATION = 60"

definition DEFAULT_DEPOSIT :: nat where
  "DEFAULT_DEPOSIT = 1000000000000000"

definition MAX_UINT256 :: nat where
  "MAX_UINT256 = 2 ^ 256 - 1"

subsection \<open>The ciphertext capability\<close>

text \<open>
  Modelled from the spec: the FHE library (\<open>@fhevm/solidity/lib/FHE.sol\<close>) is an external
  collaborator and not part of the sources. The spec gives its interface: constants are
  encrypted, \<open>homomorphicAdd\<close>, \<open>homomorphicEquals\<close> and \<open>homomorphicSelect\<close> compute on
  ciphertexts what \<open>+\<close>, \<open>=\<close> and \<open>if\<close> compute on the plaintexts, an external input is
  converted into an internal ciphertext once its validity proof is verified, and a
  ciphertext is converted into a transport handle. Over plaintexts these are the
  operations below; the addition of \<open>euint32\<close> wraps at 32 bits. The access grants
  (\<open>FHE.allowThis\<close>, \<open>FHE.allow\<close>) change none of the state modelled here and are left
  out.

  Whether a validity proof verifies is decided by the provider, outside the contract.
  The verifier is a parameter of the model: a predicate on the external input and the
  proof that comes with it, given with every call that converts an input, so that
  nothing is assumed on how the provider decides, nor that it decides alike for two
  callers or at two times. \<open>FHE.fromExternal\<close> reverts when the proof does not verify;
  the error it raises is declared in the library, and \<open>InputProofRejected\<close> stands for
  it.
\<close>

type_synonym input_verifier = "euint8 \<Rightarrow> 8 word list \<Rightarrow> bool"

definition FHE_asEuint32 :: "32 word \<Rightarrow> euint32" where
  "FHE_asEuint32 v = v"

definition FHE_asEuint8 :: "8 word \<Rightarrow> euint8" where
  "FHE_asEuint8 v = v"

definition FHE_fromExternal :: "input_verifier \<Rightarrow> euint8 \<Rightarrow> 8 word list \<Rightarrow> error + euint8" where
  "FHE_fromExternal verifier encryptedInput inputProof =
     (if verifier encryptedInput inputProof then Inr encryptedInput
      else Inl InputProofRejected)"

definition FHE_eq :: "euint8 \<Rightarrow> euint8 \<Rightarrow> ebool" where
  "FHE_eq a b = (a = b)"

definition FHE_select :: "ebool \<Rightarrow> euint32 \<Rightarrow> euint32 \<Rightarrow> euint32" where
  "FHE_select c a b = (if c then a else b)"

definition FHE_add :: "euint32 \<Rightarrow> euint32 \<Rightarrow> euint32" where
  "FHE_add a b = a + b"

definition FHE_toBytes32 :: "euint32 \<Rightarrow> euint32" where
  "FHE_toBytes32 c = c"

subsection \<open>createSurvey\<close>

text \<open>The loop that sets the encrypted counter of every option to an encrypted zero.\<close>

function init_loop :: "nat \<Rightarrow> nat \<Rightarrow> (nat \<Rightarrow> euint32) \<Rightarrow> (nat \<Rightarrow> euint32)" where
  "init_loop i n ev = (if i < n then init_loop (i + 1) n (ev(i := FHE_asEuint32 0)) else ev)"
  by pat_completeness auto
termination
  by (relation "measure (\<lambda>(i, n, ev). n - i)") auto

declare init_loop.simps [simp del]

text \<open>
  The function is payable: the host credits \<open>msg.value\<close> to the balance before the body
  runs. The survey is written field by field into the storage slot \<open>surveys[surveyId]\<close>;
  the mappings \<open>decryptedVotes\<close>, \<open>hasVoted\<close> and \<open>hasWithdrawn\<close> of the slot are not
  touched.
\<close>

definition createSurvey ::
  "address \<Rightarrow> nat \<Rightarrow> string \<Rightarrow> string list \<Rightarrow> nat \<Rightarrow> nat \<Rightarrow> nat \<Rightarrow> ledger
     \<Rightarrow> error + (nat \<times> ledger)" where
  "createSurvey msg_sender msg_value question_arg options_arg durationInSeconds
       depositRequired_arg rewardPerResponse_arg l0 =
    (let l = l0\<lparr>balance := balance l0 + msg_value\<rparr> in
     if length options_arg < MIN_OPTIONS \<or> length options_arg > MAX_OPTIONS
       then Inl InvalidOptionCount
     else if durationInSeconds < MIN_DURATION then Inl InvalidDuration
     else let rewardPool_v = msg_value in
     if rewardPool_v = 0 then Inl InsufficientRewardPool
     else let depositRequired_v =
                (if depositRequired_arg = 0 then DEFAULT_DEPOSIT else depositRequired_arg) in
     if rewardPerResponse_arg = 0 \<or> rewardPerResponse_arg > rewardPool_v
       then Inl InsufficientRewardPool
     else if surveyCount l + 1 > MAX_UINT256 then Inl Panic
     else let surveyId = surveyCount l;
              l1 = l\<lparr>surveyCount := surveyCount l + 1\<rparr> in
     if block_timestamp l1 + durationInSeconds > MAX_UINT256 then Inl Panic
     else let s = surveys l1 surveyId;
              s1 = s\<lparr>creator := msg_sender,
                     question := question_arg,
                     options := options_arg,
                     endTime := block_timestamp l1 + durationInSeconds,
                     rewardPool := rewardPool_v,
                     depositRequired := depositRequired_v,
                     rewardPerResponse := rewardPerResponse_arg,
                     totalResponses := 0,
                     isActive := True,
                     resultsReleased := False\<rparr>;
              s2 = s1\<lparr>encryptedVotes := init_loop 0 (length options_arg) (encryptedVotes s1)\<rparr>
          in Inr (surveyId,
                  l1\<lparr>surveys := (surveys l1)(surveyId := s2),
                     events := events l1 @
                       [SurveyCreated surveyId msg_sender question_arg (length options_arg)
                          (endTime s2) rewardPool_v depositRequired_v rewardPerResponse_arg]\<rparr>))"

subsection \<open>submitResponse\<close>

text \<open>
  The sweep over all options: the encrypted choice is compared with the constant
  \<open>uint8(i)\<close>, the comparison selects an encrypted 1 or 0, and the selection is added to
  the counter of option \<open>i\<close>. \<open>uint8(i)\<close> truncates, which is \<open>of_nat\<close> into an 8-bit word.
\<close>

function tally_loop ::
  "euint8 \<Rightarrow> nat \<Rightarrow> nat \<Rightarrow> (nat \<Rightarrow> euint32) \<Rightarrow> (nat \<Rightarrow> euint32)" where
  "tally_loop encryptedOption i optionCount ev =
     (if i < optionCount then
        (let isThisOption = FHE_eq encryptedOption (FHE_asEuint8 (of_nat i));
             increment = FHE_select isThisOption (FHE_asEuint32 1) (FHE_asEuint32 0)
         in tally_loop encryptedOption (i + 1) optionCount
              (ev(i := FHE_add (ev i) increment)))
      else ev)"
  by pat_completeness auto
termination
  by (relation "measure (\<lambda>(c, i, n, ev). n - i)") auto

declare tally_loop.simps [simp del]

definition submitResponse ::
  "input_verifier \<Rightarrow> address \<Rightarrow> nat \<Rightarrow> nat \<Rightarrow> euint8 \<Rightarrow> 8 word list \<Rightarrow> ledger
     \<Rightarrow> error + ledger" where
  "submitResponse verifier msg_sender msg_value surveyId encryptedOptionIndex inputProof l0 =
    (let l = l0\<lparr>balance := balance l0 + msg_value\<rparr>;
         s = surveys l surveyId in
     if creator s = 0 then Inl SurveyNotFound
     else if block_timestamp l \<ge> endTime s then Inl SurveyEnded
     else if \<not> isActive s then Inl SurveyEnded
     else if hasVoted s msg_sender then Inl AlreadyVoted
     else if msg_value < depositRequired s then Inl InsufficientDeposit
     else case FHE_fromExternal verifier encryptedOptionIndex inputProof of
       Inl e \<Rightarrow> Inl e
     | Inr encryptedOption \<Rightarrow>
         (let optionCount = length (options s);
              s1 = s\<lparr>encryptedVotes :=
                       tally_loop encryptedOption 0 optionCount (encryptedVotes s)\<rparr>;
              s2 = s1\<lparr>hasVoted := (hasVoted s1)(msg_sender := True)\<rparr> in
          if totalResponses s2 + 1 > MAX_UINT256 then Inl Panic
          else let s3 = s2\<lparr>totalResponses := totalResponses s2 + 1\<rparr>
               in Inr (l\<lparr>surveys := (surveys l)(surveyId := s3),
                         events := events l @
                           [ResponseSubmitted surveyId msg_sender (block_timestamp l)
                              msg_value]\<rparr>)))"

subsection \<open>The two withdrawals\<close>

text \<open>
  A transfer \<open>payable(a).call{value: v}("")\<close> debits the balance and then runs the code of
  the recipient, which sees the ledger as the contract has left it and may call back
  into the contract. The recipient is a parameter of the model: a function from the
  ledger it is handed to whether it accepts the payment and the ledger as it leaves it.
  The call also fails when the balance does not cover \<open>v\<close>.
\<close>

type_synonym receiver = "ledger \<Rightarrow> bool \<times> ledger"

definition withdrawParticipantFunds ::
  "receiver \<Rightarrow> address \<Rightarrow> nat \<Rightarrow> ledger \<Rightarrow> error + ledger" where
  "withdrawParticipantFunds recv msg_sender surveyId l =
    (let s = surveys l surveyId in
     if creator s = 0 then Inl SurveyNotFound
     else if \<not> hasVoted s msg_sender then Inl NotParticipant
     else if hasWithdrawn s msg_sender then Inl AlreadyWithdrawn
     else let s1 = s\<lparr>hasWithdrawn := (hasWithdrawn s)(msg_sender := True)\<rparr>;
              l1 = l\<lparr>surveys := (surveys l)(surveyId := s1)\<rparr>;
              depositReturn = depositRequired s1;
              reward = rewardPerResponse s1 in
     if depositReturn + reward > MAX_UINT256 then Inl Panic
     else let totalPayout = depositReturn + reward in
     if \<not> balance l1 \<ge> totalPayout then Inl (Require ''Insufficient contract balance'')
     else case recv (l1\<lparr>balance := balance l1 - totalPayout\<rparr>) of
            (success, l2) \<Rightarrow>
              if \<not> success then Inl (Require ''Withdrawal failed'')
              else Inr (l2\<lparr>events := events l2 @
                         [ParticipantWithdrawal surveyId msg_sender depositReturn reward
                            totalPayout]\<rparr>))"

definition withdrawRewardPool ::
  "receiver \<Rightarrow> address \<Rightarrow> nat \<Rightarrow> ledger \<Rightarrow> error + ledger" where
  "withdrawRewardPool recv msg_sender surveyId l =
    (let s = surveys l surveyId in
     if creator s = 0 then Inl SurveyNotFound
     else if msg_sender \<noteq> creator s then Inl NotCreator
     else if block_timestamp l < endTime s then Inl SurveyStillActive
     else if rewardPool s = 0 then Inl RewardPoolEmpty
     else if totalResponses s * rewardPerResponse s > MAX_UINT256 then Inl Panic
     else let totalRewardsAllocated = totalResponses s * rewardPerResponse s;
              remaining = (if rewardPool s > totalRewardsAllocated
                           then rewardPool s - totalRewardsAllocated else 0);
              s1 = s\<lparr>rewardPool := 0\<rparr>;
              l1 = l\<lparr>surveys := (surveys l)(surveyId := s1)\<rparr> in
     if remaining > 0 then
       (if balance l1 < remaining then Inl (Require ''Withdrawal failed'')
        else case recv (l1\<lparr>balance := balance l1 - remaining\<rparr>) of
               (success, l2) \<Rightarrow>
                 if \<not> success then Inl (Require ''Withdrawal failed'')
                 else Inr (l2\<lparr>events := events l2 @
                            [RewardPoolWithdrawn surveyId (creator s1) remaining]\<rparr>))
     else Inr (l1\<lparr>events := events l1 @
                 [RewardPoolWithdrawn surveyId (creator s1) remaining]\<rparr>))"

subsection \<open>Reveal and settlement\<close>

definition releaseAndRequestDecrypt ::
  "address \<Rightarrow> nat \<Rightarrow> nat \<Rightarrow> ledger \<Rightarrow> error + ledger" where
  "releaseAndRequestDecrypt msg_sender surveyId optionIndex l =
    (let s = surveys l surveyId in
     if creator s = 0 then Inl SurveyNotFound
     else if block_timestamp l < endTime s then Inl SurveyStillActive
     else if optionIndex \<ge> length (options s) then Inl InvalidOptionIndex
     else let l1 = (if \<not> resultsReleased s
                    then l\<lparr>surveys := (surveys l)(surveyId :=
                                s\<lparr>resultsReleased := True, isActive := False\<rparr>),
                           events := events l @ [ResultsReleased surveyId (block_timestamp l)]\<rparr>
                    else l);
              encryptedVote = encryptedVotes (surveys l1 surveyId) optionIndex;
              voteHandle = FHE_toBytes32 encryptedVote
          in Inr (l1\<lparr>events := events l1 @
                     [DecryptionRequested surveyId optionIndex voteHandle]\<rparr>))"

definition storeDecryptedVote ::
  "address \<Rightarrow> nat \<Rightarrow> nat \<Rightarrow> 32 word \<Rightarrow> ledger \<Rightarrow> error + ledger" where
  "storeDecryptedVote msg_sender surveyId optionIndex decryptedVote l =
    (let s = surveys l surveyId in
     if \<not> resultsReleased s then Inl ResultsNotReleased
     else if optionIndex \<ge> length (options s) then Inl InvalidOptionIndex
     else Inr (l\<lparr>surveys := (surveys l)(surveyId :=
                     s\<lparr>decryptedVotes := (decryptedVotes s)(optionIndex := decryptedVote)\<rparr>),
                 events := events l @ [VoteDecrypted surveyId optionIndex decryptedVote]\<rparr>))"

subsection \<open>getSurveyStatistics\<close>

text \<open>
  The array \<open>percentages\<close> is allocated with zeros and filled by the loop. The product
  \<open>uint256(decryptedVotes[i]) * 10000\<close> is below \<open>2 ^ 46\<close> and cannot overflow.
\<close>

function stats_loop :: "survey \<Rightarrow> nat \<Rightarrow> nat \<Rightarrow> nat list \<Rightarrow> nat list" where
  "stats_loop s i optionCount percentages =
     (if i < optionCount then
        stats_loop s (i + 1) optionCount
          (percentages[i := (unat (decryptedVotes s i) * 10000) div totalResponses s])
      else percentages)"
  by pat_completeness auto
termination
  by (relation "measure (\<lambda>(s, i, n, ps). n - i)") auto

declare stats_loop.simps [simp del]

definition getSurveyStatistics :: "nat \<Rightarrow> ledger \<Rightarrow> error + nat list" where
  "getSurveyStatistics surveyId l =
    (let s = surveys l surveyId in
     if \<not> resultsReleased s then Inl ResultsNotReleased
     else let optionCount = length (options s);
              percentages = replicate optionCount 0 in
     if totalResponses s = 0 then Inr percentages
     else Inr (stats_loop s 0 optionCount percentages))"

subsection \<open>What a recipient is handed\<close>

text \<open>
  The ledger a recipient is handed. In \<open>withdrawParticipantFunds\<close> the caller is marked
  as withdrawn and deposit plus reward are debited; in \<open>withdrawRewardPool\<close> the reward
  pool is zero and what remained of it is debited.
\<close>

definition handed_to_participant :: "address \<Rightarrow> nat \<Rightarrow> ledger \<Rightarrow> ledger" where
  "handed_to_participant a sid l =
     l\<lparr>surveys := (surveys l)(sid := (surveys l sid)
          \<lparr>hasWithdrawn := (hasWithdrawn (surveys l sid))(a := True)\<rparr>),
       balance := balance l -
          (depositRequired (surveys l sid) + rewardPerResponse (surveys l sid))\<rparr>"

definition remaining_pool :: "survey \<Rightarrow> nat" where
  "remaining_pool s =
     (if rewardPool s > totalResponses s * rewardPerResponse s
      then rewardPool s - totalResponses s * rewardPerResponse s else 0)"

definition handed_to_creator :: "nat \<Rightarrow> ledger \<Rightarrow> ledger" where
  "handed_to_creator sid l =
     l\<lparr>surveys := (surveys l)(sid := (surveys l sid)\<lparr>rewardPool := 0\<rparr>),
       balance := balance l - remaining_pool (surveys l sid)\<rparr>"

subsection \<open>The ledger as a transition system\<close>

text \<open>
  The public calls of the contract, with the sender and the attached value where the
  function reads them, the recipient where the function transfers, and the verifier
  of the provider where the function converts an external input. \<open>Receive\<close> is the
  payable \<open>receive()\<close> function; \<open>NextBlock\<close> is the host moving to a block with a later
  timestamp.
\<close>

datatype call =
    CreateSurvey address nat string "string list" nat nat nat
  | SubmitResponse input_verifier address nat nat euint8 "8 word list"
  | WithdrawParticipantFunds receiver address nat
  | ReleaseAndRequestDecrypt address nat nat
  | StoreDecryptedVote address nat nat "32 word"
  | WithdrawRewardPool receiver address nat
  | Receive address nat
  | NextBlock nat

fun exec :: "call \<Rightarrow> ledger \<Rightarrow> error + ledger" where
  "exec (CreateSurvey a v q os d dep r) l =
     (case createSurvey a v q os d dep r l of Inl e \<Rightarrow> Inl e | Inr (sid, l') \<Rightarrow> Inr l')"
| "exec (SubmitResponse vf a v sid c p) l = submitResponse vf a v sid c p l"
| "exec (WithdrawParticipantFunds recv a sid) l = withdrawParticipantFunds recv a sid l"
| "exec (ReleaseAndRequestDecrypt a sid i) l = releaseAndRequestDecrypt a sid i l"
| "exec (StoreDecryptedVote a sid i v) l = storeDecryptedVote a sid i v l"
| "exec (WithdrawRewardPool recv a sid) l = withdrawRewardPool recv a sid l"
| "exec (Receive a v) l = Inr (l\<lparr>balance := balance l + v\<rparr>)"
| "exec (NextBlock t) l =
     (if block_timestamp l \<le> t then Inr (l\<lparr>block_timestamp := t\<rparr>)
      else Inl (Require ''timestamp before the current block''))"

fun exec_all :: "call list \<Rightarrow> ledger \<Rightarrow> error + ledger" where
  "exec_all [] l = Inr l"
| "exec_all (c # cs) l = (case exec c l of Inl e \<Rightarrow> Inl e | Inr l' \<Rightarrow> exec_all cs l')"

fun receivers :: "call \<Rightarrow> receiver list" where
  "receivers (WithdrawParticipantFunds recv a sid) = [recv]"
| "receivers (WithdrawRewardPool recv a sid) = [recv]"
| "receivers (CreateSurvey a v q os d dep r) = []"
| "receivers (SubmitResponse vf a v sid c p) = []"
| "receivers (ReleaseAndRequestDecrypt a sid i) = []"
| "receivers (StoreDecryptedVote a sid i v) = []"
| "receivers (Receive a v) = []"
| "receivers (NextBlock t) = []"

text \<open>A provider that verifies every proof, and one that verifies none.\<close>

definition accepting :: input_verifier where
  "accepting c p = True"

definition rejecting :: input_verifier where
  "rejecting c p = False"

text \<open>A recipient without code: it accepts the payment and calls nothing.\<close>

definition accept :: receiver where
  "accept l = (True, l)"

text \<open>
  \<open>reach A l l'\<close>: the ledger \<open>l'\<close> is reached from \<open>l\<close> by successful calls, each of them
  allowed by \<open>A\<close> in the state where it is made. A recipient that is paid may call back
  into the contract before the paying call returns; whatever it does is again a
  sequence of successful calls allowed by \<open>A\<close>. A reverted call leaves the ledger as it
  was and is no step.
\<close>

inductive reach :: "(call \<Rightarrow> ledger \<Rightarrow> bool) \<Rightarrow> ledger \<Rightarrow> ledger \<Rightarrow> bool"
  for A :: "call \<Rightarrow> ledger \<Rightarrow> bool" where
  reach_refl: "reach A l l"
| reach_step: "reach A l l1 \<Longrightarrow> A c l1 \<Longrightarrow>
     (\<forall>r\<in>set (receivers c). \<forall>x. fst (r x) \<longrightarrow> reach A x (snd (r x))) \<Longrightarrow>
     exec c l1 = Inr l2 \<Longrightarrow> reach A l l2"

text \<open>
  A call sequence is an allowed run from \<open>l\<close> when every call succeeds, is allowed by \<open>A\<close>
  where it is made, and pays only recipients without code.
\<close>

fun allowed_run :: "(call \<Rightarrow> ledger \<Rightarrow> bool) \<Rightarrow> call list \<Rightarrow> ledger \<Rightarrow> bool" where
  "allowed_run A [] l = True"
| "allowed_run A (c # cs) l =
     (A c l \<and> (\<forall>r\<in>set (receivers c). r = accept) \<and>
      (case exec c l of Inl e \<Rightarrow> False | Inr l' \<Rightarrow> allowed_run A cs l'))"

text \<open>No restriction on the calls.\<close>

definition any_call :: "call \<Rightarrow> ledger \<Rightarrow> bool" where
  "any_call c l = True"

definition empty_survey :: survey where
  "empty_survey =
     \<lparr>creator = 0, question = [], options = [], endTime = 0, rewardPool = 0,
      depositRequired = 0, rewardPerResponse = 0, totalResponses = 0, isActive = False,
      resultsReleased = False, encryptedVotes = (\<lambda>i. 0), decryptedVotes = (\<lambda>i. 0),
      hasVoted = (\<lambda>p. False), hasWithdrawn = (\<lambda>p. False)\<rparr>"

text \<open>
  The ledger at deployment: no survey, every storage slot at its default, whatever
  balance the address already holds.
\<close>

definition genesis :: "nat \<Rightarrow> nat \<Rightarrow> ledger" where
  "genesis b t =
     \<lparr>surveyCount = 0, surveys = (\<lambda>sid. empty_survey), balance = b, block_timestamp = t,
      events = []\<rparr>"

text \<open>
  The reachable ledgers are those reached from a ledger at deployment; a recipient is
  well behaved when all it does to the ledger is to call the contract.
\<close>

definition reachable_by :: "(call \<Rightarrow> ledger \<Rightarrow> bool) \<Rightarrow> ledger \<Rightarrow> bool" where
  "reachable_by A l = (\<exists>b t. reach A (genesis b t) l)"

definition reachable :: "ledger \<Rightarrow> bool" where
  "reachable l = reachable_by any_call l"

definition well_behaved :: "receiver \<Rightarrow> bool" where
  "well_behaved recv = (\<forall>x. fst (recv x) \<longrightarrow> reach any_call x (snd (recv x)))"

subsection \<open>Funds owed\<close>

text \<open>
  What the ledger owes for one survey: deposit and reward to every participant who has
  voted and not withdrawn, and to the creator what is left of the pool after the
  rewards allocated, as \<open>withdrawRewardPool\<close> computes it.
\<close>

definition unwithdrawn :: "survey \<Rightarrow> address set" where
  "unwithdrawn s = {p. hasVoted s p \<and> \<not> hasWithdrawn s p}"

definition participant_entitlements :: "survey \<Rightarrow> nat" where
  "participant_entitlements s =
     card (unwithdrawn s) * (depositRequired s + rewardPerResponse s)"

definition creator_entitlement :: "survey \<Rightarrow> nat" where
  "creator_entitlement s =
     (if rewardPool s = 0 then 0
      else if rewardPool s > totalResponses s * rewardPerResponse s
        then rewardPool s - totalResponses s * rewardPerResponse s
      else 0)"

definition owed :: "survey \<Rightarrow> nat" where
  "owed s = participant_entitlements s + creator_entitlement s"

definition liabilities :: "ledger \<Rightarrow> nat" where
  "liabilities l = (\<Sum>sid\<in>{..<surveyCount l}. owed (surveys l sid))"

text \<open>
  A response is within the pool when, counting it, the rewards allocated do not exceed
  the reward pool of its survey.
\<close>

fun within_pool :: "call \<Rightarrow> ledger \<Rightarrow> bool" where
  "within_pool (SubmitResponse vf a v sid c p) l =
     ((totalResponses (surveys l sid) + 1) * rewardPerResponse (surveys l sid)
        \<le> rewardPool (surveys l sid))"
| "within_pool (CreateSurvey a v q os d dep r) l = True"
| "within_pool (WithdrawParticipantFunds recv a sid) l = True"
| "within_pool (ReleaseAndRequestDecrypt a sid i) l = True"
| "within_pool (StoreDecryptedVote a sid i v) l = True"
| "within_pool (WithdrawRewardPool recv a sid) l = True"
| "within_pool (Receive a v) l = True"
| "within_pool (NextBlock t) l = True"

subsection \<open>Tallies and signals\<close>



definition encrypted_sum :: "survey \<Rightarrow> nat" where
  "encrypted_sum s = (\<Sum>i\<in>{..<length (options s)}. unat (encryptedVotes s i))"


fun is_released_signal :: "nat \<Rightarrow> event \<Rightarrow> bool" where
  "is_released_signal sid (ResultsReleased s t) = (s = sid)"
| "is_released_signal sid (SurveyCreated s a q n e p d r) = False"
| "is_released_signal sid (ResponseSubmitted s a t v) = False"
| "is_released_signal sid (ParticipantWithdrawal s a d r p) = False"
| "is_released_signal sid (DecryptionRequested s i h) = False"
| "is_released_signal sid (VoteDecrypted s i v) = False"
| "is_released_signal sid (RewardPoolWithdrawn s a v) = False"

definition released_signals :: "nat \<Rightarrow> event list \<Rightarrow> nat" where
  "released_signals sid es = length (filter (is_released_signal sid) es)"

subsection \<open>Invariants of the reachable ledgers\<close>

text \<open>The slots at and above \<open>surveyCount\<close> have never been written.\<close>

definition inv_fresh :: "ledger \<Rightarrow> bool" where
  "inv_fresh l = (\<forall>sid\<ge>surveyCount l. surveys l sid = empty_survey)"

text \<open>
  What holds of every storage slot: only voters have withdrawn, \<open>totalResponses\<close> counts
  the voters, there are at most \<open>MAX_OPTIONS\<close> options, the encrypted counters hold
  together at most \<open>totalResponses\<close>, and a slot with a voter has a creator.
\<close>

definition survey_ok :: "survey \<Rightarrow> bool" where
  "survey_ok s =
     ((\<forall>p. hasWithdrawn s p \<longrightarrow> hasVoted s p) \<and>
      totalResponses s = card {p. hasVoted s p} \<and>
      length (options s) \<le> MAX_OPTIONS \<and>
      encrypted_sum s \<le> totalResponses s \<and>
      ((\<exists>p. hasVoted s p) \<longrightarrow> creator s \<noteq> 0))"


definition inv_released :: "ledger \<Rightarrow> bool" where
  "inv_released l = (\<forall>sid. released_signals sid (events l) =
                       (if resultsReleased (surveys l sid) then 1 else 0))"

definition wf :: "ledger \<Rightarrow> bool" where
  "wf l = (inv_fresh l \<and> (\<forall>sid. survey_ok (surveys l sid)))"

text \<open>
  What a later ledger keeps of an earlier one: the surveys that exist keep their
  creator, options, end time, deposit and reward; flags that are set stay set; a
  reward pool that is zero stays zero; the clock does not run backwards.
\<close>

definition survey_kept :: "survey \<Rightarrow> survey \<Rightarrow> bool" where
  "survey_kept s s' =
     (creator s' = creator s \<and> options s' = options s \<and> endTime s' = endTime s \<and>
      depositRequired s' = depositRequired s \<and> rewardPerResponse s' = rewardPerResponse s \<and>
      (\<forall>p. hasVoted s p \<longrightarrow> hasVoted s' p) \<and>
      (\<forall>p. hasWithdrawn s p \<longrightarrow> hasWithdrawn s' p) \<and>
      (resultsReleased s \<longrightarrow> resultsReleased s') \<and>
      (\<not> isActive s \<longrightarrow> \<not> isActive s') \<and>
      (rewardPool s = 0 \<longrightarrow> rewardPool s' = 0))"

definition later :: "ledger \<Rightarrow> ledger \<Rightarrow> bool" where
  "later l l' =
     (surveyCount l \<le> surveyCount l' \<and> block_timestamp l \<le> block_timestamp l' \<and>
      (\<forall>sid < surveyCount l. survey_kept (surveys l sid) (surveys l' sid)))"

subsection \<open>Sample runs\<close>

text \<open>
  Concrete participants and call sequences, started on the ledger \<open>genesis 0 0\<close>. They
  are the inputs at which the properties below are instantiated.
\<close>

definition alice :: address where
  "alice = 1"

definition bob :: address where
  "bob = 2"

definition carol :: address where
  "carol = 3"

definition after :: "call list \<Rightarrow> ledger" where
  "after cs = projr (exec_all cs (genesis 0 0))"

definition run_created :: "call list" where
  "run_created = [CreateSurvey alice 10 ''q'' [''a'', ''b''] 60 1 10]"

text \<open>
  A survey with three options, ten responses and the decrypted counts 3, 5 and 2.
\<close>

definition ledger_3_5_2 :: ledger where
  "ledger_3_5_2 =
     (genesis 0 60)\<lparr>surveyCount := 1,
       surveys := (\<lambda>sid. empty_survey)(0 := empty_survey
         \<lparr>creator := alice, options := [''a'', ''b'', ''c''], totalResponses := 10,
          resultsReleased := True,
          decryptedVotes := (\<lambda>i. 0)(0 := 3, 1 := 5, 2 := 2)\<rparr>)\<rparr>"

text \<open>
  A survey with a pool of 10 and a reward of 5 per response, and two responses: the
  pool covers both rewards.
\<close>

definition run_funded :: "call list" where
  "run_funded =
     [CreateSurvey alice 10 ''q'' [''a'', ''b''] 60 1 5,
      SubmitResponse accepting bob 1 0 0 [], SubmitResponse accepting carol 3 0 1 []]"

text \<open>
  A survey with a pool of 10 and a reward of 10 per response, and two responses: the
  pool covers one reward only.
\<close>

definition run_oversubscribed :: "call list" where
  "run_oversubscribed =
     [CreateSurvey alice 10 ''q'' [''a'', ''b''] 60 1 10,
      SubmitResponse accepting bob 1 0 0 [], SubmitResponse accepting carol 1 0 1 []]"

text \<open>
  The oversubscribed survey after the first of its two participants has withdrawn.
\<close>

definition run_drained :: "call list" where
  "run_drained = run_oversubscribed @ [WithdrawParticipantFunds accept bob 0]"

text \<open>One response to a funded survey, and the same run with the withdrawal.\<close>

definition run_voted :: "call list" where
  "run_voted =
     [CreateSurvey alice 10 ''q'' [''a'', ''b''] 60 1 5, SubmitResponse accepting bob 1 0 1 []]"

definition run_withdrawn :: "call list" where
  "run_withdrawn = run_voted @ [WithdrawParticipantFunds accept bob 0]"

text \<open>
  The funded survey with one response at its end time, and the same run with the
  withdrawal of the creator.
\<close>

definition run_closed :: "call list" where
  "run_closed = run_voted @ [NextBlock 60]"

definition run_pool_withdrawn :: "call list" where
  "run_pool_withdrawn = run_closed @ [WithdrawRewardPool accept alice 0]"

text \<open>
  The closed survey after the first reveal call and after a second one, for the other
  option and by another caller.
\<close>

definition run_released :: "call list" where
  "run_released = run_closed @ [ReleaseAndRequestDecrypt carol 0 1]"

definition run_released_twice :: "call list" where
  "run_released_twice = run_released @ [ReleaseAndRequestDecrypt bob 0 0]"

text \<open>The funded survey before any response.\<close>

definition run_opened :: "call list" where
  "run_opened = [CreateSurvey alice 10 ''q'' [''a'', ''b''] 60 1 5]"









section \<open>Properties\<close>

subsection \<open>The loops in closed form\<close>

lemma init_loop_eq: "init_loop i n ev = (\<lambda>j. if i \<le> j \<and> j < n then FHE_asEuint32 0 else ev j)"
proof (induction i n ev rule: init_loop.induct)
  case (1 i n ev)
  show ?case
  proof (cases "i < n")
    case True
    have "init_loop i n ev = init_loop (i + 1) n (ev(i := FHE_asEuint32 0))"
      using True by (subst init_loop.simps) simp
    also have "\<dots> = (\<lambda>j. if i + 1 \<le> j \<and> j < n then FHE_asEuint32 0
                         else (ev(i := FHE_asEuint32 0)) j)"
      by (rule "1.IH" [OF True])
    also have "\<dots> = (\<lambda>j. if i \<le> j \<and> j < n then FHE_asEuint32 0 else ev j)"
      using True by (auto simp: fun_eq_iff)
    finally show ?thesis .
  next
    case False
    then show ?thesis by (subst init_loop.simps) (auto simp: fun_eq_iff)
  qed
qed

lemma tally_loop_eq:
  "tally_loop c i n ev =
     (\<lambda>j. if i \<le> j \<and> j < n
           then FHE_add (ev j) (FHE_select (FHE_eq c (FHE_asEuint8 (of_nat j)))
                                  (FHE_asEuint32 1) (FHE_asEuint32 0))
           else ev j)"
proof (induction c i n ev rule: tally_loop.induct)
  case (1 c i n ev)
  let ?inc = "\<lambda>j. FHE_select (FHE_eq c (FHE_asEuint8 (of_nat j))) (FHE_asEuint32 1) (FHE_asEuint32 0)"
  show ?case
  proof (cases "i < n")
    case True
    let ?ev = "ev(i := FHE_add (ev i) (?inc i))"
    have "tally_loop c i n ev = tally_loop c (i + 1) n ?ev"
      using True by (subst tally_loop.simps) (simp add: Let_def)
    also have "\<dots> = (\<lambda>j. if i + 1 \<le> j \<and> j < n then FHE_add (?ev j) (?inc j) else ?ev j)"
      by (rule "1.IH" [OF True refl refl])
    also have "\<dots> = (\<lambda>j. if i \<le> j \<and> j < n then FHE_add (ev j) (?inc j) else ev j)"
      using True by (auto simp: fun_eq_iff)
    finally show ?thesis .
  next
    case False
    then show ?thesis by (subst tally_loop.simps) (auto simp: fun_eq_iff)
  qed
qed

lemma stats_loop_eq:
  "n \<le> length ps \<Longrightarrow> stats_loop s i n ps =
     map (\<lambda>j. if i \<le> j \<and> j < n then (unat (decryptedVotes s j) * 10000) div totalResponses s
               else ps ! j) [0..<length ps]"
proof (induction s i n ps rule: stats_loop.induct)
  case (1 s i n ps)
  show ?case
  proof (cases "i < n")
    case True
    let ?v = "(unat (decryptedVotes s i) * 10000) div totalResponses s"
    have len: "n \<le> length (ps[i := ?v])" using "1.prems" by simp
    have "stats_loop s i n ps = stats_loop s (i + 1) n (ps[i := ?v])"
      using True by (subst stats_loop.simps) simp
    also have "\<dots> = map (\<lambda>j. if i + 1 \<le> j \<and> j < n
                        then (unat (decryptedVotes s j) * 10000) div totalResponses s
                        else ps[i := ?v] ! j) [0..<length (ps[i := ?v])]"
      by (rule "1.IH" [OF True len])
    also have "\<dots> = map (\<lambda>j. if i \<le> j \<and> j < n
                        then (unat (decryptedVotes s j) * 10000) div totalResponses s
                        else ps ! j) [0..<length ps]"
      using True "1.prems" by (auto simp: nth_list_update)
    finally show ?thesis .
  next
    case False
    have "stats_loop s i n ps = ps"
      using False by (subst stats_loop.simps) simp
    also have "\<dots> = map (\<lambda>j. ps ! j) [0..<length ps]"
      by (simp add: map_nth)
    also have "\<dots> = map (\<lambda>j. if i \<le> j \<and> j < n
                        then (unat (decryptedVotes s j) * 10000) div totalResponses s
                        else ps ! j) [0..<length ps]"
      using False by auto
    finally show ?thesis .
  qed
qed


lemmas eval_simps = createSurvey_def submitResponse_def
  withdrawParticipantFunds_def withdrawRewardPool_def releaseAndRequestDecrypt_def
  storeDecryptedVote_def Let_def genesis_def empty_survey_def init_loop_eq tally_loop_eq
  MIN_OPTIONS_def MAX_OPTIONS_def MIN_DURATION_def DEFAULT_DEPOSIT_def MAX_UINT256_def
  FHE_add_def FHE_select_def FHE_eq_def FHE_asEuint8_def FHE_asEuint32_def
  FHE_fromExternal_def FHE_toBytes32_def accept_def accepting_def rejecting_def
  alice_def bob_def carol_def

subsection \<open>What a successful call has checked and written\<close>

lemma submitResponse_Inr:
  assumes "submitResponse vf a v sid c pr l = Inr l'"
  shows "creator (surveys l sid) \<noteq> 0"
    and "block_timestamp l < endTime (surveys l sid)"
    and "isActive (surveys l sid)"
    and "\<not> hasVoted (surveys l sid) a"
    and "depositRequired (surveys l sid) \<le> v"
    and "totalResponses (surveys l sid) < MAX_UINT256"
    and "l' = l\<lparr>balance := balance l + v,
                 surveys := (surveys l)(sid := (surveys l sid)
                   \<lparr>encryptedVotes := tally_loop c 0
                        (length (options (surveys l sid))) (encryptedVotes (surveys l sid)),
                    hasVoted := (hasVoted (surveys l sid))(a := True),
                    totalResponses := totalResponses (surveys l sid) + 1\<rparr>),
                 events := events l @ [ResponseSubmitted sid a (block_timestamp l) v]\<rparr>"
    and "vf c pr"
  using assms
  by (auto simp: submitResponse_def FHE_fromExternal_def Let_def split: if_splits)

lemma createSurvey_Inr:
  assumes "createSurvey a v q os d dep r l = Inr (sid, l')"
  shows "sid = surveyCount l"
    and "MIN_OPTIONS \<le> length os" and "length os \<le> MAX_OPTIONS"
    and "v \<noteq> 0" and "r \<noteq> 0" and "r \<le> v"
    and "l' = l\<lparr>balance := balance l + v,
                 surveyCount := surveyCount l + 1,
                 surveys := (surveys l)(surveyCount l := (surveys l (surveyCount l))
                   \<lparr>creator := a, question := q, options := os,
                    endTime := block_timestamp l + d, rewardPool := v,
                    depositRequired := (if dep = 0 then DEFAULT_DEPOSIT else dep),
                    rewardPerResponse := r, totalResponses := 0, isActive := True,
                    resultsReleased := False,
                    encryptedVotes := init_loop 0 (length os)
                      (encryptedVotes (surveys l (surveyCount l)))\<rparr>),
                 events := events l @
                   [SurveyCreated (surveyCount l) a q (length os) (block_timestamp l + d) v
                      (if dep = 0 then DEFAULT_DEPOSIT else dep) r]\<rparr>"
  using assms by (auto simp: createSurvey_def Let_def split: if_splits)

lemma withdrawParticipantFunds_Inr:
  assumes "withdrawParticipantFunds recv a sid l = Inr l'"
  shows "creator (surveys l sid) \<noteq> 0"
    and "hasVoted (surveys l sid) a"
    and "\<not> hasWithdrawn (surveys l sid) a"
    and "depositRequired (surveys l sid) + rewardPerResponse (surveys l sid) \<le> MAX_UINT256"
    and "depositRequired (surveys l sid) + rewardPerResponse (surveys l sid) \<le> balance l"
    and "fst (recv (handed_to_participant a sid l))"
    and "l' = (snd (recv (handed_to_participant a sid l)))
           \<lparr>events := events (snd (recv (handed_to_participant a sid l))) @
              [ParticipantWithdrawal sid a (depositRequired (surveys l sid))
                 (rewardPerResponse (surveys l sid))
                 (depositRequired (surveys l sid) + rewardPerResponse (surveys l sid))]\<rparr>"
  using assms
  by (auto simp: withdrawParticipantFunds_def handed_to_participant_def Let_def
           split: if_splits prod.splits)

lemma withdrawRewardPool_Inr:
  assumes "withdrawRewardPool recv a sid l = Inr l'"
  shows "creator (surveys l sid) \<noteq> 0"
    and "a = creator (surveys l sid)"
    and "endTime (surveys l sid) \<le> block_timestamp l"
    and "rewardPool (surveys l sid) \<noteq> 0"
    and "remaining_pool (surveys l sid) \<le> balance l"
    and "remaining_pool (surveys l sid) > 0 \<Longrightarrow> fst (recv (handed_to_creator sid l))"
    and "l' = (if remaining_pool (surveys l sid) > 0
               then snd (recv (handed_to_creator sid l)) else handed_to_creator sid l)
           \<lparr>events := events (if remaining_pool (surveys l sid) > 0
                 then snd (recv (handed_to_creator sid l)) else handed_to_creator sid l) @
              [RewardPoolWithdrawn sid (creator (surveys l sid))
                 (remaining_pool (surveys l sid))]\<rparr>"
  using assms
  by (auto simp: withdrawRewardPool_def handed_to_creator_def remaining_pool_def Let_def
           split: if_splits prod.splits)

lemma releaseAndRequestDecrypt_Inr:
  assumes "releaseAndRequestDecrypt a sid i l = Inr l'"
  shows "creator (surveys l sid) \<noteq> 0"
    and "endTime (surveys l sid) \<le> block_timestamp l"
    and "i < length (options (surveys l sid))"
    and "l' = (if resultsReleased (surveys l sid)
               then l\<lparr>events := events l @
                      [DecryptionRequested sid i
                         (FHE_toBytes32 (encryptedVotes (surveys l sid) i))]\<rparr>
               else l\<lparr>surveys := (surveys l)(sid := (surveys l sid)
                        \<lparr>resultsReleased := True, isActive := False\<rparr>),
                      events := events l @
                        [ResultsReleased sid (block_timestamp l),
                         DecryptionRequested sid i
                           (FHE_toBytes32 (encryptedVotes (surveys l sid) i))]\<rparr>)"
  using assms
  by (auto simp: releaseAndRequestDecrypt_def Let_def split: if_splits)

lemma storeDecryptedVote_Inr:
  assumes "storeDecryptedVote a sid i v l = Inr l'"
  shows "resultsReleased (surveys l sid)"
    and "i < length (options (surveys l sid))"
    and "l' = l\<lparr>surveys := (surveys l)(sid := (surveys l sid)
                   \<lparr>decryptedVotes := (decryptedVotes (surveys l sid))(i := v)\<rparr>),
                 events := events l @ [VoteDecrypted sid i v]\<rparr>"
  using assms
  by (auto simp: storeDecryptedVote_def Let_def split: if_splits)

lemma reach_invariant:
  assumes "reach A l l'" and "P l"
    and step: "\<And>c x y. P x \<Longrightarrow> A c x \<Longrightarrow>
                 (\<forall>r\<in>set (receivers c). \<forall>z. fst (r z) \<longrightarrow> P z \<longrightarrow> P (snd (r z))) \<Longrightarrow>
                 exec c x = Inr y \<Longrightarrow> P y"
  shows "P l'"
proof -
  have "P l \<longrightarrow> P l'"
    using assms(1)
  proof (induction rule: reach.induct)
    case (reach_refl l)
    show ?case by simp
  next
    case (reach_step l l1 c l2)
    show ?case
    proof
      assume "P l"
      with reach_step.IH have "P l1" by simp
      moreover have "\<forall>r\<in>set (receivers c). \<forall>z. fst (r z) \<longrightarrow> P z \<longrightarrow> P (snd (r z))"
        using reach_step.IH(2) by blast
      ultimately show "P l2"
        using step reach_step.hyps by blast
    qed
  qed
  with assms(2) show ?thesis by simp
qed


lemma exec_Inr_cases [consumes 1, case_names create submit withdrawP release store withdrawPool receive block]:
  assumes "exec c x = Inr y"
  obtains
    (create) a v q os d dep r where "c = CreateSurvey a v q os d dep r"
      "createSurvey a v q os d dep r x = Inr (surveyCount x, y)"
  | (submit) vf a v sid ch pr where "c = SubmitResponse vf a v sid ch pr"
      "submitResponse vf a v sid ch pr x = Inr y"
  | (withdrawP) recv a sid where "c = WithdrawParticipantFunds recv a sid"
      "withdrawParticipantFunds recv a sid x = Inr y"
  | (release) a sid i where "c = ReleaseAndRequestDecrypt a sid i"
      "releaseAndRequestDecrypt a sid i x = Inr y"
  | (store) a sid i v where "c = StoreDecryptedVote a sid i v"
      "storeDecryptedVote a sid i v x = Inr y"
  | (withdrawPool) recv a sid where "c = WithdrawRewardPool recv a sid"
      "withdrawRewardPool recv a sid x = Inr y"
  | (receive) a v where "c = Receive a v" "y = x\<lparr>balance := balance x + v\<rparr>"
  | (block) t where "c = NextBlock t" "block_timestamp x \<le> t" "y = x\<lparr>block_timestamp := t\<rparr>"
proof (cases c)
  case (CreateSurvey a v q os d dep r)
  with assms obtain sid where "createSurvey a v q os d dep r x = Inr (sid, y)"
    by (auto split: sum.splits)
  moreover from this have "sid = surveyCount x" by (rule createSurvey_Inr(1))
  ultimately show ?thesis using create CreateSurvey by simp
next
  case (NextBlock t)
  with assms show ?thesis using block by (auto split: if_splits)
qed (use assms in \<open>auto intro: submit withdrawP release store withdrawPool receive\<close>)

lemma exec_direct_cases [consumes 2, case_names create submit release store receive block]:
  assumes "exec c x = Inr y" and "receivers c = []"
  obtains
    (create) a v q os d dep r where "c = CreateSurvey a v q os d dep r"
      "createSurvey a v q os d dep r x = Inr (surveyCount x, y)"
  | (submit) vf a v sid ch pr where "c = SubmitResponse vf a v sid ch pr"
      "submitResponse vf a v sid ch pr x = Inr y"
  | (release) a sid i where "c = ReleaseAndRequestDecrypt a sid i"
      "releaseAndRequestDecrypt a sid i x = Inr y"
  | (store) a sid i v where "c = StoreDecryptedVote a sid i v"
      "storeDecryptedVote a sid i v x = Inr y"
  | (receive) a v where "c = Receive a v" "y = x\<lparr>balance := balance x + v\<rparr>"
  | (block) t where "c = NextBlock t" "block_timestamp x \<le> t" "y = x\<lparr>block_timestamp := t\<rparr>"
  using assms(1)
proof (cases rule: exec_Inr_cases)
  case (withdrawP recv a sid)
  then show ?thesis using assms(2) by simp
next
  case (withdrawPool recv a sid)
  then show ?thesis using assms(2) by simp
qed (blast intro: create submit release store receive block)+

text \<open>
  An invariant of the runs: it suffices that the calls without a transfer, the two
  handovers to a recipient and the logging of a withdrawal preserve it.
\<close>

lemma reach_invariant2:
  assumes run: "reach A l l'" and init: "P l"
    and direct: "\<And>c x y. P x \<Longrightarrow> A c x \<Longrightarrow> receivers c = [] \<Longrightarrow> exec c x = Inr y \<Longrightarrow> P y"
    and handP: "\<And>recv a sid x y. P x \<Longrightarrow> withdrawParticipantFunds recv a sid x = Inr y \<Longrightarrow>
                  P (handed_to_participant a sid x)"
    and handC: "\<And>recv a sid x y. P x \<Longrightarrow> withdrawRewardPool recv a sid x = Inr y \<Longrightarrow>
                  P (handed_to_creator sid x)"
    and logW: "\<And>x e. P x \<Longrightarrow> (\<forall>sid. \<not> is_released_signal sid e) \<Longrightarrow>
                 P (x\<lparr>events := events x @ [e]\<rparr>)"
  shows "P l'"
  using run init
proof (rule reach_invariant)
  fix c x y
  assume Px: "P x" and A: "A c x"
    and recv: "\<forall>r\<in>set (receivers c). \<forall>z. fst (r z) \<longrightarrow> P z \<longrightarrow> P (snd (r z))"
    and ex: "exec c x = Inr y"
  from ex show "P y"
  proof (cases rule: exec_Inr_cases)
    case (withdrawP recv' a sid)
    note facts = withdrawParticipantFunds_Inr [OF withdrawP(2)]
    have "P (handed_to_participant a sid x)"
      using Px withdrawP(2) by (rule handP)
    then have "P (snd (recv' (handed_to_participant a sid x)))"
      using recv withdrawP(1) facts(6) by simp
    then show ?thesis
      unfolding facts(7) by (rule logW) simp
  next
    case (withdrawPool recv' a sid)
    note facts = withdrawRewardPool_Inr [OF withdrawPool(2)]
    have mid: "P (handed_to_creator sid x)"
      using Px withdrawPool(2) by (rule handC)
    have "P (if remaining_pool (surveys x sid) > 0
             then snd (recv' (handed_to_creator sid x)) else handed_to_creator sid x)"
      using mid recv withdrawPool(1) facts(6) by simp
    then show ?thesis
      unfolding facts(7) by (rule logW) simp
  qed (use Px A ex in \<open>auto intro: direct\<close>)
qed

subsection \<open>Unwritten slots stay unwritten\<close>

lemma inv_fresh_exists:
  assumes "inv_fresh x"
    and "creator (surveys x sid) \<noteq> 0 \<or> resultsReleased (surveys x sid) \<or>
         hasVoted (surveys x sid) p \<or> rewardPool (surveys x sid) \<noteq> 0"
  shows "sid < surveyCount x"
proof (rule ccontr)
  assume "\<not> sid < surveyCount x"
  then have "surveys x sid = empty_survey"
    using assms(1) by (simp add: inv_fresh_def)
  then show False
    using assms(2) by (simp add: empty_survey_def)
qed

lemma inv_fresh_direct:
  assumes "inv_fresh x" and "exec c x = Inr y" and "receivers c = []"
  shows "inv_fresh y"
  using assms(2,3)
proof (cases rule: exec_direct_cases)
  case (create a v q os d dep r)
  show ?thesis
    using assms(1) unfolding createSurvey_Inr(7) [OF create(2)]
    by (simp add: inv_fresh_def)
next
  case (submit vf a v sid ch pr)
  have "sid < surveyCount x"
    using submitResponse_Inr(1) [OF submit(2)] inv_fresh_exists [OF assms(1)] by blast
  then show ?thesis
    using assms(1) unfolding submitResponse_Inr(7) [OF submit(2)]
    by (simp add: inv_fresh_def)
next
  case (release a sid i)
  have "sid < surveyCount x"
    using releaseAndRequestDecrypt_Inr(1) [OF release(2)] inv_fresh_exists [OF assms(1)] by blast
  then show ?thesis
    using assms(1) unfolding releaseAndRequestDecrypt_Inr(4) [OF release(2)]
    by (simp add: inv_fresh_def)
next
  case (store a sid i v)
  have "sid < surveyCount x"
    using storeDecryptedVote_Inr(1) [OF store(2)] inv_fresh_exists [OF assms(1)] by blast
  then show ?thesis
    using assms(1) unfolding storeDecryptedVote_Inr(3) [OF store(2)]
    by (simp add: inv_fresh_def)
next
  case (receive a v)
  then show ?thesis using assms(1) by (simp add: inv_fresh_def)
next
  case (block t)
  then show ?thesis using assms(1) by (simp add: inv_fresh_def)
qed

lemma inv_fresh_handP:
  assumes "inv_fresh x" and "withdrawParticipantFunds recv a sid x = Inr y"
  shows "inv_fresh (handed_to_participant a sid x)"
proof -
  have "sid < surveyCount x"
    using withdrawParticipantFunds_Inr(1) [OF assms(2)] inv_fresh_exists [OF assms(1)] by blast
  then show ?thesis
    using assms(1) by (simp add: inv_fresh_def handed_to_participant_def)
qed

lemma inv_fresh_handC:
  assumes "inv_fresh x" and "withdrawRewardPool recv a sid x = Inr y"
  shows "inv_fresh (handed_to_creator sid x)"
proof -
  have "sid < surveyCount x"
    using withdrawRewardPool_Inr(1) [OF assms(2)] inv_fresh_exists [OF assms(1)] by blast
  then show ?thesis
    using assms(1) by (simp add: inv_fresh_def handed_to_creator_def)
qed

lemma inv_fresh_events [simp]: "inv_fresh (x\<lparr>events := es\<rparr>) = inv_fresh x"
  by (simp add: inv_fresh_def)

lemma inv_fresh_genesis [simp]: "inv_fresh (genesis b t)"
  by (simp add: inv_fresh_def genesis_def)

lemma reach_inv_fresh:
  assumes "reach A l l'" and "inv_fresh l"
  shows "inv_fresh l'"
  using assms
  by (rule reach_invariant2)
     (auto intro: inv_fresh_direct inv_fresh_handP inv_fresh_handC)

subsection \<open>Every slot is well formed\<close>

lemma per_survey_direct:
  assumes ex: "exec c x = Inr y" and dir: "receivers c = []"
    and fresh: "inv_fresh x" and Q: "\<forall>sid. Q (surveys x sid)"
    and Qcreate: "\<And>a q os e v dp r. MIN_OPTIONS \<le> length os \<Longrightarrow> length os \<le> MAX_OPTIONS \<Longrightarrow>
                   v \<noteq> 0 \<Longrightarrow> r \<noteq> 0 \<Longrightarrow> r \<le> v \<Longrightarrow>
                   Q (empty_survey\<lparr>creator := a, question := q, options := os, endTime := e,
                        rewardPool := v, depositRequired := dp, rewardPerResponse := r,
                        totalResponses := 0, isActive := True, resultsReleased := False,
                        encryptedVotes := init_loop 0 (length os) (\<lambda>i. 0)\<rparr>)"
    and Qsubmit: "\<And>vf a v sid ch pr. c = SubmitResponse vf a v sid ch pr \<Longrightarrow>
                   creator (surveys x sid) \<noteq> 0 \<Longrightarrow>
                   \<not> hasVoted (surveys x sid) a \<Longrightarrow>
                   totalResponses (surveys x sid) < MAX_UINT256 \<Longrightarrow>
                   Q ((surveys x sid)
                        \<lparr>encryptedVotes := tally_loop ch 0
                           (length (options (surveys x sid))) (encryptedVotes (surveys x sid)),
                         hasVoted := (hasVoted (surveys x sid))(a := True),
                         totalResponses := totalResponses (surveys x sid) + 1\<rparr>)"
    and Qrelease: "\<And>s. Q s \<Longrightarrow> Q (s\<lparr>resultsReleased := True, isActive := False\<rparr>)"
    and Qstore: "\<And>s i v. Q s \<Longrightarrow> Q (s\<lparr>decryptedVotes := (decryptedVotes s)(i := v)\<rparr>)"
  shows "\<forall>sid. Q (surveys y sid)"
  using ex dir
proof (cases rule: exec_direct_cases)
  case (create a v q os d dep r)
  have slot: "surveys x (surveyCount x) = empty_survey"
    using fresh by (simp add: inv_fresh_def)
  note facts = createSurvey_Inr [OF create(2)]
  show ?thesis
    unfolding facts(7)
    using Q Qcreate [OF facts(2,3,4,5,6)]
    by (simp add: slot empty_survey_def)
next
  case (submit vf a v sid ch pr)
  note facts = submitResponse_Inr [OF submit(2)]
  show ?thesis
    unfolding facts(7)
    using Q Qsubmit [OF submit(1) facts(1) facts(4) facts(6)] by simp
next
  case (release a sid i)
  note facts = releaseAndRequestDecrypt_Inr [OF release(2)]
  show ?thesis
    unfolding facts(4) using Q Qrelease [of "surveys x sid"] by simp
next
  case (store a sid i v)
  note facts = storeDecryptedVote_Inr [OF store(2)]
  show ?thesis
    unfolding facts(3) using Q Qstore [of "surveys x sid"] by simp
next
  case (receive a v)
  then show ?thesis using Q by simp
next
  case (block t)
  then show ?thesis using Q by simp
qed

lemma card_voters_insert:
  assumes "\<not> hv (a::address)"
  shows "card {p. p \<noteq> a \<longrightarrow> hv p} = Suc (card (Collect hv))"
proof -
  have "{p. p \<noteq> a \<longrightarrow> hv p} = insert a (Collect hv)" by auto
  moreover have "a \<notin> Collect hv" using assms by simp
  ultimately show ?thesis by simp
qed

lemma tally_sum_le:
  fixes ev :: "nat \<Rightarrow> 32 word" and ch :: "8 word"
  assumes "n \<le> 256"
  shows "(\<Sum>j<n. unat (ev j + (if ch = of_nat j then 1 else 0))) \<le> (\<Sum>j<n. unat (ev j)) + 1"
proof (cases "unat ch < n")
  case True
  have eq: "(ch = of_nat j) = (j = unat ch)" if "j < n" for j
    using that assms by (auto simp: unat_of_nat)
  have "(\<Sum>j<n. unat (ev j + (if ch = of_nat j then 1 else 0)))
          = (\<Sum>j\<in>{..<n}. unat (ev j + (if j = unat ch then 1 else 0)))"
    by (rule sum.cong) (auto simp: eq)
  also have "\<dots> = unat (ev (unat ch) + 1) + (\<Sum>j\<in>{..<n} - {unat ch}. unat (ev j))"
    using True by (subst sum.remove [of _ "unat ch"]) auto
  also have "\<dots> \<le> (unat (ev (unat ch)) + 1) + (\<Sum>j\<in>{..<n} - {unat ch}. unat (ev j))"
    by (simp add: unat_word_ariths)
  also have "\<dots> = (\<Sum>j<n. unat (ev j)) + 1"
    using True by (subst (2) sum.remove [of _ "unat ch"]) auto
  finally show ?thesis .
next
  case False
  have neq: "ch \<noteq> of_nat j" if "j < n" for j
    using that assms False by (auto simp: unat_of_nat)
  have "(\<Sum>j<n. unat (ev j + (if ch = of_nat j then 1 else 0))) = (\<Sum>j<n. unat (ev j))"
    by (rule sum.cong) (auto simp: neq)
  then show ?thesis by simp
qed



lemma encrypted_sum_tally_le:
  assumes "length (options s) \<le> MAX_OPTIONS"
  shows "encrypted_sum (s\<lparr>encryptedVotes := tally_loop ch 0
                            (length (options s)) (encryptedVotes s),
                          hasVoted := hv, totalResponses := n\<rparr>) \<le> encrypted_sum s + 1"
proof -
  have "length (options s) \<le> 256"
    using assms by (simp add: MAX_OPTIONS_def)
  from tally_sum_le [OF this, where ev = "encryptedVotes s" and ch = ch] show ?thesis
    by (simp add: encrypted_sum_def tally_loop_eq FHE_add_def FHE_select_def FHE_eq_def
          FHE_asEuint8_def FHE_asEuint32_def)
qed


lemma encrypted_sum_created:
  "encrypted_sum (empty_survey\<lparr>creator := a, question := q, options := os, endTime := e,
                    rewardPool := v, depositRequired := dp, rewardPerResponse := r,
                    totalResponses := 0, isActive := True, resultsReleased := False,
                    encryptedVotes := init_loop 0 (length os) (\<lambda>i. 0)\<rparr>) = 0"
  by (simp add: encrypted_sum_def init_loop_eq FHE_asEuint32_def)

lemma survey_ok_empty: "survey_ok empty_survey"
  by (simp add: survey_ok_def empty_survey_def encrypted_sum_def)

lemma survey_ok_submit:
  assumes "survey_ok s" and "creator s \<noteq> 0" and "\<not> hasVoted s a"
  shows "survey_ok (s\<lparr>encryptedVotes := tally_loop ch 0
                        (length (options s)) (encryptedVotes s),
                      hasVoted := (hasVoted s)(a := True),
                      totalResponses := totalResponses s + 1\<rparr>)"
proof -
  have "length (options s) \<le> MAX_OPTIONS"
    using assms(1) by (simp add: survey_ok_def)
  from encrypted_sum_tally_le [OF this, where ch = ch
      and hv = "(hasVoted s)(a := True)" and n = "totalResponses s + 1"]
  show ?thesis
    using assms by (simp add: survey_ok_def card_voters_insert)
qed

lemma wf_direct:
  assumes "wf x" and "exec c x = Inr y" and "receivers c = []"
  shows "wf y"
proof -
  have "inv_fresh y"
    using assms by (auto simp: wf_def intro: inv_fresh_direct)
  moreover have "\<forall>sid. survey_ok (surveys y sid)"
    using assms(2,3)
  proof (rule per_survey_direct)
    show "inv_fresh x" "\<forall>sid. survey_ok (surveys x sid)"
      using assms(1) by (simp_all add: wf_def)
  next
    fix a q and os :: "string list" and e v dp r
    assume "length os \<le> MAX_OPTIONS"
    then show "survey_ok (empty_survey\<lparr>creator := a, question := q, options := os, endTime := e,
                        rewardPool := v, depositRequired := dp, rewardPerResponse := r,
                        totalResponses := 0, isActive := True, resultsReleased := False,
                        encryptedVotes := init_loop 0 (length os) (\<lambda>i. 0)\<rparr>)"
      unfolding survey_ok_def encrypted_sum_created
      by (simp add: empty_survey_def)
  next
    fix vf a v sid ch pr
    assume "creator (surveys x sid) \<noteq> 0" "\<not> hasVoted (surveys x sid) a"
    then show "survey_ok ((surveys x sid)
                        \<lparr>encryptedVotes := tally_loop ch 0
                           (length (options (surveys x sid))) (encryptedVotes (surveys x sid)),
                         hasVoted := (hasVoted (surveys x sid))(a := True),
                         totalResponses := totalResponses (surveys x sid) + 1\<rparr>)"
      using assms(1) by (intro survey_ok_submit) (simp_all add: wf_def)
  next
    fix s
    assume "survey_ok s"
    then show "survey_ok (s\<lparr>resultsReleased := True, isActive := False\<rparr>)"
      by (simp add: survey_ok_def encrypted_sum_def)
  next
    fix s i v
    assume "survey_ok s"
    then show "survey_ok (s\<lparr>decryptedVotes := (decryptedVotes s)(i := v)\<rparr>)"
      by (simp add: survey_ok_def encrypted_sum_def)
  qed
  ultimately show ?thesis by (simp add: wf_def)
qed

lemma wf_handP:
  assumes "wf x" and "withdrawParticipantFunds recv a sid x = Inr y"
  shows "wf (handed_to_participant a sid x)"
proof -
  note facts = withdrawParticipantFunds_Inr [OF assms(2)]
  have "survey_ok (surveys x sid)"
    using assms(1) by (simp add: wf_def)
  then have "survey_ok ((surveys x sid)\<lparr>hasWithdrawn := (hasWithdrawn (surveys x sid))(a := True)\<rparr>)"
    using facts(2) by (simp add: survey_ok_def encrypted_sum_def)
  then have "\<forall>s. survey_ok (surveys (handed_to_participant a sid x) s)"
    using assms(1) by (simp add: wf_def handed_to_participant_def)
  then show ?thesis
    using assms inv_fresh_handP by (simp add: wf_def)
qed

lemma wf_handC:
  assumes "wf x" and "withdrawRewardPool recv a sid x = Inr y"
  shows "wf (handed_to_creator sid x)"
proof -
  have "survey_ok (surveys x sid)"
    using assms(1) by (simp add: wf_def)
  then have "survey_ok ((surveys x sid)\<lparr>rewardPool := 0\<rparr>)"
    by (simp add: survey_ok_def encrypted_sum_def)
  then have "\<forall>s. survey_ok (surveys (handed_to_creator sid x) s)"
    using assms(1) by (simp add: wf_def handed_to_creator_def)
  then show ?thesis
    using assms inv_fresh_handC by (simp add: wf_def)
qed

lemma wf_events [simp]: "wf (x\<lparr>events := es\<rparr>) = wf x"
  by (simp add: wf_def)

lemma wf_genesis [simp]: "wf (genesis b t)"
  using survey_ok_empty by (simp add: wf_def) (simp add: genesis_def)

lemma reach_wf:
  assumes "reach A l l'" and "wf l"
  shows "wf l'"
  using assms
  by (rule reach_invariant2) (auto intro: wf_direct wf_handP wf_handC)


subsection \<open>The released signal is logged once\<close>

lemma released_signals_append [simp]:
  "released_signals sid (es @ es') = released_signals sid es + released_signals sid es'"
  by (simp add: released_signals_def)

lemma released_signals_Cons [simp]:
  "released_signals sid (e # es) = (if is_released_signal sid e then 1 else 0) + released_signals sid es"
  by (simp add: released_signals_def)

lemma released_signals_Nil [simp]: "released_signals sid [] = 0"
  by (simp add: released_signals_def)

lemma inv_released_direct:
  assumes "inv_fresh x" and "inv_released x" and "exec c x = Inr y" and "receivers c = []"
  shows "inv_released y"
  using assms(3,4)
proof (cases rule: exec_direct_cases)
  case (create a v q os d dep r)
  have slot: "surveys x (surveyCount x) = empty_survey"
    using assms(1) by (simp add: inv_fresh_def)
  have "\<not> resultsReleased (surveys x (surveyCount x))"
    by (simp add: slot empty_survey_def)
  then show ?thesis
    using assms(2) unfolding createSurvey_Inr(7) [OF create(2)]
    by (simp add: inv_released_def)
next
  case (submit vf a v sid ch pr)
  show ?thesis
    using assms(2) unfolding submitResponse_Inr(7) [OF submit(2)]
    by (simp add: inv_released_def)
next
  case (release a sid i)
  show ?thesis
    using assms(2) unfolding releaseAndRequestDecrypt_Inr(4) [OF release(2)]
    by (simp add: inv_released_def)
next
  case (store a sid i v)
  show ?thesis
    using assms(2) unfolding storeDecryptedVote_Inr(3) [OF store(2)]
    by (simp add: inv_released_def)
next
  case (receive a v)
  then show ?thesis using assms(2) by (simp add: inv_released_def)
next
  case (block t)
  then show ?thesis using assms(2) by (simp add: inv_released_def)
qed

lemma inv_released_handP [simp]:
  "inv_released (handed_to_participant a sid x) = inv_released x"
  by (auto simp: inv_released_def handed_to_participant_def)

lemma inv_released_handC [simp]:
  "inv_released (handed_to_creator sid x) = inv_released x"
  by (auto simp: inv_released_def handed_to_creator_def)

lemma inv_released_log:
  assumes "inv_released x" and "\<forall>sid. \<not> is_released_signal sid e"
  shows "inv_released (x\<lparr>events := events x @ [e]\<rparr>)"
  using assms by (simp add: inv_released_def)

lemma reach_inv_released:
  assumes "reach A l l'" and "inv_fresh l" and "inv_released l"
  shows "inv_released l'"
proof -
  have "inv_fresh l' \<and> inv_released l'"
    using assms(1)
  proof (rule reach_invariant2)
    show "inv_fresh l \<and> inv_released l" using assms by simp
  next
    fix c x y
    assume "inv_fresh x \<and> inv_released x" "receivers c = []" "exec c x = Inr y"
    then show "inv_fresh y \<and> inv_released y"
      using inv_fresh_direct inv_released_direct by blast
  next
    fix recv a sid x y
    assume "inv_fresh x \<and> inv_released x" "withdrawParticipantFunds recv a sid x = Inr y"
    then show "inv_fresh (handed_to_participant a sid x) \<and>
               inv_released (handed_to_participant a sid x)"
      using inv_fresh_handP by simp
  next
    fix recv a sid x y
    assume "inv_fresh x \<and> inv_released x" "withdrawRewardPool recv a sid x = Inr y"
    then show "inv_fresh (handed_to_creator sid x) \<and> inv_released (handed_to_creator sid x)"
      using inv_fresh_handC by simp
  next
    fix x e
    assume "inv_fresh x \<and> inv_released x" "\<forall>sid. \<not> is_released_signal sid e"
    then show "inv_fresh (x\<lparr>events := events x @ [e]\<rparr>) \<and>
               inv_released (x\<lparr>events := events x @ [e]\<rparr>)"
      using inv_released_log by simp
  qed
  then show ?thesis by simp
qed

lemma inv_released_genesis [simp]: "inv_released (genesis b t)"
  by (simp add: inv_released_def genesis_def empty_survey_def)

subsection \<open>What later ledgers keep\<close>

lemma survey_kept_refl [simp]: "survey_kept s s"
  by (simp add: survey_kept_def)

lemma survey_kept_trans: "survey_kept s s' \<Longrightarrow> survey_kept s' s'' \<Longrightarrow> survey_kept s s''"
  by (simp add: survey_kept_def)

lemma later_refl [simp]: "later l l"
  by (simp add: later_def)

lemma later_trans: "later l l' \<Longrightarrow> later l' l'' \<Longrightarrow> later l l''"
  unfolding later_def
  by (meson le_trans less_le_trans survey_kept_trans)

lemma later_direct:
  assumes "exec c x = Inr y" and "receivers c = []"
  shows "later x y"
  using assms
proof (cases rule: exec_direct_cases)
  case (create a v q os d dep r)
  show ?thesis
    unfolding createSurvey_Inr(7) [OF create(2)] by (simp add: later_def)
next
  case (submit vf a v sid ch pr)
  show ?thesis
    unfolding submitResponse_Inr(7) [OF submit(2)] by (simp add: later_def survey_kept_def)
next
  case (release a sid i)
  show ?thesis
    unfolding releaseAndRequestDecrypt_Inr(4) [OF release(2)]
    by (simp add: later_def survey_kept_def)
next
  case (store a sid i v)
  show ?thesis
    unfolding storeDecryptedVote_Inr(3) [OF store(2)] by (simp add: later_def survey_kept_def)
next
  case (receive a v)
  then show ?thesis by (simp add: later_def)
next
  case (block t)
  then show ?thesis by (simp add: later_def)
qed

lemma later_handP: "later x (handed_to_participant a sid x)"
  by (simp add: later_def handed_to_participant_def survey_kept_def)

lemma later_handC: "later x (handed_to_creator sid x)"
  by (simp add: later_def handed_to_creator_def survey_kept_def)

lemma later_events: "later x (x\<lparr>events := es\<rparr>)"
  by (simp add: later_def)

lemma reach_later:
  assumes "reach A l l'"
  shows "later l l'"
  using assms
proof (rule reach_invariant2)
  show "later l l" by simp
qed (blast intro: later_trans later_direct later_handP later_handC later_events)+

subsection \<open>Runs\<close>

lemma reach_mono:
  assumes "reach A l l'" and "\<And>c x. A c x \<Longrightarrow> B c x"
  shows "reach B l l'"
  using assms(1)
proof (induction rule: reach.induct)
  case (reach_refl l)
  show ?case by (rule reach.reach_refl)
next
  case (reach_step l l1 c l2)
  show ?case
    using reach_step.IH(1) assms(2) [OF reach_step.hyps(2)] _ reach_step.hyps(3)
    by (rule reach.reach_step) (use reach_step.IH(2) in blast)
qed

lemma reach_trans:
  assumes "reach A l l'" and "reach A l' l''"
  shows "reach A l l''"
  using assms(2,1)
  by (induction rule: reach.induct) (auto intro: reach.reach_step)

lemma allowed_run_reach:
  assumes "allowed_run A cs l"
  shows "exec_all cs l = Inr (projr (exec_all cs l)) \<and> reach A l (projr (exec_all cs l))"
  using assms
proof (induction cs arbitrary: l)
  case Nil
  show ?case by (simp add: reach.reach_refl)
next
  case (Cons c cs)
  from Cons.prems obtain l1 where step: "exec c l = Inr l1" and rest: "allowed_run A cs l1"
    and A: "A c l" and recv: "\<forall>r\<in>set (receivers c). r = accept"
    by (auto split: sum.splits)
  have one: "reach A l l1"
    using reach.reach_refl A _ step
    by (rule reach.reach_step) (use recv in \<open>auto simp: accept_def reach.reach_refl\<close>)
  from Cons.IH [OF rest] have "exec_all cs l1 = Inr (projr (exec_all cs l1))"
    and "reach A l1 (projr (exec_all cs l1))" by simp_all
  then show ?case
    using step one by (auto intro: reach_trans)
qed

lemma allowed_run_after:
  assumes "allowed_run A cs (genesis 0 0)"
  shows "exec_all cs (genesis 0 0) = Inr (after cs)" and "reachable_by A (after cs)"
  using allowed_run_reach [OF assms] by (auto simp: after_def reachable_by_def)

lemma reachable_by_any:
  assumes "reachable_by A l"
  shows "reachable l"
  using assms reach_mono [of A _ l any_call]
  by (auto simp: reachable_def reachable_by_def any_call_def)

lemma reachable_wf:
  assumes "reachable_by A l"
  shows "wf l"
  using assms reach_wf wf_genesis by (auto simp: reachable_by_def)

subsection \<open>Funds owed and funds held\<close>

lemma liabilities_same:
  assumes "surveyCount y = surveyCount x" and "surveys y = surveys x"
  shows "liabilities y = liabilities x"
  using assms by (simp add: liabilities_def)

lemma liabilities_update:
  assumes "surveyCount y = surveyCount x" and "surveys y = (surveys x)(sid := s')"
    and "sid < surveyCount x"
  shows "liabilities y + owed (surveys x sid) = liabilities x + owed s'"
proof -
  have fin: "finite {..<surveyCount x}" and mem: "sid \<in> {..<surveyCount x}"
    using assms by simp_all
  have "liabilities y = (\<Sum>i\<in>{..<surveyCount x}. owed (((surveys x)(sid := s')) i))"
    using assms by (simp add: liabilities_def)
  also have "\<dots> = owed (((surveys x)(sid := s')) sid)
                  + (\<Sum>i\<in>{..<surveyCount x} - {sid}. owed (((surveys x)(sid := s')) i))"
    by (rule sum.remove [OF fin mem])
  also have "\<dots> = owed s' + (\<Sum>i\<in>{..<surveyCount x} - {sid}. owed (surveys x i))"
    by simp
  finally have "liabilities y
          = owed s' + (\<Sum>i\<in>{..<surveyCount x} - {sid}. owed (surveys x i))" .
  moreover have "liabilities x
          = owed (surveys x sid) + (\<Sum>i\<in>{..<surveyCount x} - {sid}. owed (surveys x i))"
    unfolding liabilities_def by (rule sum.remove [OF fin mem])
  ultimately show ?thesis by simp
qed

lemma liabilities_create:
  assumes "surveyCount y = surveyCount x + 1" and "surveys y = (surveys x)(surveyCount x := s')"
  shows "liabilities y = liabilities x + owed s'"
  using assms by (simp add: liabilities_def)

lemma unwithdrawn_vote:
  assumes "\<not> hasVoted s a" and "\<forall>p. hasWithdrawn s p \<longrightarrow> hasVoted s p"
  shows "card (unwithdrawn (s\<lparr>encryptedVotes := ev, hasVoted := (hasVoted s)(a := True),
                              totalResponses := n\<rparr>)) = card (unwithdrawn s) + 1"
proof -
  have "unwithdrawn (s\<lparr>encryptedVotes := ev, hasVoted := (hasVoted s)(a := True),
                       totalResponses := n\<rparr>) = insert a (unwithdrawn s)"
    using assms by (auto simp: unwithdrawn_def)
  moreover have "a \<notin> unwithdrawn s"
    using assms by (simp add: unwithdrawn_def)
  ultimately show ?thesis by simp
qed

lemma unwithdrawn_mark:
  assumes "hasVoted s a" and "\<not> hasWithdrawn s a"
  shows "card (unwithdrawn (s\<lparr>hasWithdrawn := (hasWithdrawn s)(a := True)\<rparr>)) + 1
           = card (unwithdrawn s)"
proof -
  have "unwithdrawn (s\<lparr>hasWithdrawn := (hasWithdrawn s)(a := True)\<rparr>) = unwithdrawn s - {a}"
    by (auto simp: unwithdrawn_def)
  moreover have "a \<in> unwithdrawn s"
    using assms by (simp add: unwithdrawn_def)
  ultimately show ?thesis
    using card.remove [of "unwithdrawn s" a] by simp
qed

lemma owed_submit:
  assumes "(totalResponses s + 1) * rewardPerResponse s \<le> rewardPool s"
    and "\<not> hasVoted s a" and "\<forall>p. hasWithdrawn s p \<longrightarrow> hasVoted s p"
  shows "owed (s\<lparr>encryptedVotes := ev, hasVoted := (hasVoted s)(a := True),
                  totalResponses := totalResponses s + 1\<rparr>) = owed s + depositRequired s"
proof -
  let ?s' = "s\<lparr>encryptedVotes := ev, hasVoted := (hasVoted s)(a := True),
               totalResponses := totalResponses s + 1\<rparr>"
  have pe: "participant_entitlements ?s'
              = participant_entitlements s + (depositRequired s + rewardPerResponse s)"
    by (simp add: participant_entitlements_def unwithdrawn_vote [OF assms(2,3)] algebra_simps)
  have ce: "creator_entitlement ?s' + rewardPerResponse s = creator_entitlement s"
    using assms(1) by (auto simp: creator_entitlement_def algebra_simps)
  show ?thesis
    using pe ce by (simp add: owed_def)
qed

lemma owed_mark:
  assumes "hasVoted s a" and "\<not> hasWithdrawn s a"
  shows "owed (s\<lparr>hasWithdrawn := (hasWithdrawn s)(a := True)\<rparr>)
           + (depositRequired s + rewardPerResponse s) = owed s"
proof -
  have "participant_entitlements (s\<lparr>hasWithdrawn := (hasWithdrawn s)(a := True)\<rparr>)
          + (depositRequired s + rewardPerResponse s) = participant_entitlements s"
    using unwithdrawn_mark [OF assms, symmetric]
    by (simp add: participant_entitlements_def algebra_simps)
  moreover have "creator_entitlement (s\<lparr>hasWithdrawn := (hasWithdrawn s)(a := True)\<rparr>)
          = creator_entitlement s"
    by (simp add: creator_entitlement_def)
  ultimately show ?thesis
    by (simp add: owed_def)
qed

lemma owed_zero:
  assumes "rewardPool s \<noteq> 0"
  shows "owed (s\<lparr>rewardPool := 0\<rparr>) + remaining_pool s = owed s"
  using assms
  by (simp add: owed_def creator_entitlement_def remaining_pool_def
        participant_entitlements_def unwithdrawn_def)

lemma owed_created:
  assumes "v \<noteq> 0"
  shows "owed (empty_survey\<lparr>creator := a, question := q, options := os, endTime := e,
              rewardPool := v, depositRequired := dp, rewardPerResponse := r,
              totalResponses := 0, isActive := True, resultsReleased := False,
              encryptedVotes := ev\<rparr>) = v"
  using assms
  by (simp add: owed_def creator_entitlement_def participant_entitlements_def
        unwithdrawn_def empty_survey_def)

lemma owed_indep [simp]:
  "owed (s\<lparr>resultsReleased := rr, isActive := ia\<rparr>) = owed s"
  "owed (s\<lparr>decryptedVotes := dv\<rparr>) = owed s"
  by (simp_all add: owed_def creator_entitlement_def participant_entitlements_def
        unwithdrawn_def)



lemma wfD:
  assumes "wf x"
  shows "inv_fresh x" and "survey_ok (surveys x sid)"
  using assms by (simp_all add: wf_def)

lemma wf_exists:
  assumes "wf x"
    and "creator (surveys x sid) \<noteq> 0 \<or> resultsReleased (surveys x sid)"
  shows "sid < surveyCount x"
  using inv_fresh_exists [OF wfD(1) [OF assms(1)]] assms(2) by blast

text \<open>
  As long as every response is within the pool, the balance exceeds what is owed by at
  least as much as it did before.
\<close>

lemma surplus_create:
  assumes "wf x" and "liabilities x + k \<le> balance x"
    and "createSurvey a v q os d dep r x = Inr (surveyCount x, y)"
  shows "liabilities y + k \<le> balance y"
proof -
  note facts = createSurvey_Inr [OF assms(3)]
  have slot: "surveys x (surveyCount x) = empty_survey"
    using wfD(1) [OF assms(1)] by (simp add: inv_fresh_def)
  let ?s = "empty_survey\<lparr>creator := a, question := q, options := os,
              endTime := block_timestamp x + d, rewardPool := v,
              depositRequired := (if dep = 0 then DEFAULT_DEPOSIT else dep),
              rewardPerResponse := r, totalResponses := 0, isActive := True,
              resultsReleased := False,
              encryptedVotes := init_loop 0 (length os) (encryptedVotes empty_survey)\<rparr>"
  have cnt: "surveyCount y = surveyCount x + 1"
    unfolding facts(7) by simp
  have bal: "balance y = balance x + v"
    unfolding facts(7) by simp
  have srv: "surveys y = (surveys x)(surveyCount x := ?s)"
    unfolding facts(7) by (simp add: slot)
  have "liabilities y = liabilities x + owed ?s"
    using cnt srv by (rule liabilities_create)
  then have "liabilities y = liabilities x + v"
    using owed_created [OF facts(4)] by simp
  then show ?thesis
    using assms(2) bal by simp
qed


lemma surplus_submit:
  assumes "wf x" and "liabilities x + k \<le> balance x"
    and "(totalResponses (surveys x sid) + 1) * rewardPerResponse (surveys x sid)
           \<le> rewardPool (surveys x sid)"
    and "submitResponse vf a v sid ch pr x = Inr y"
  shows "liabilities y + k \<le> balance y"
proof -
  note facts = submitResponse_Inr [OF assms(4)]
  have ok: "survey_ok (surveys x sid)"
    using assms(1) by (rule wfD)
  have sid: "sid < surveyCount x"
    using assms(1) facts(1) by (intro wf_exists) simp_all
  let ?s = "(surveys x sid)\<lparr>encryptedVotes := tally_loop ch 0
                 (length (options (surveys x sid))) (encryptedVotes (surveys x sid)),
               hasVoted := (hasVoted (surveys x sid))(a := True),
               totalResponses := totalResponses (surveys x sid) + 1\<rparr>"
  have cnt: "surveyCount y = surveyCount x"
    unfolding facts(7) by simp
  have bal: "balance y = balance x + v"
    unfolding facts(7) by simp
  have srv: "surveys y = (surveys x)(sid := ?s)"
    unfolding facts(7) by simp
  have "liabilities y + owed (surveys x sid) = liabilities x + owed ?s"
    using cnt srv sid by (rule liabilities_update)
  moreover have "owed ?s = owed (surveys x sid) + depositRequired (surveys x sid)"
    using assms(3) facts(4) ok
    by (intro owed_submit) (simp_all add: survey_ok_def)
  ultimately show ?thesis
    using assms(2) bal facts(5) by simp
qed


lemma liabilities_release:
  assumes "wf x" and "releaseAndRequestDecrypt a sid i x = Inr y"
  shows "liabilities y = liabilities x" and "balance y = balance x"
proof -
  note facts = releaseAndRequestDecrypt_Inr [OF assms(2)]
  have sid: "sid < surveyCount x"
    using assms(1) facts(1) by (intro wf_exists) simp_all
  let ?s = "(surveys x sid)\<lparr>resultsReleased := True, isActive := False\<rparr>"
  show "balance y = balance x"
    unfolding facts(4) by simp
  show "liabilities y = liabilities x"
  proof (cases "resultsReleased (surveys x sid)")
    case True
    have "surveyCount y = surveyCount x" "surveys y = surveys x"
      unfolding facts(4) using True by simp_all
    then show ?thesis by (rule liabilities_same)
  next
    case False
    have cnt: "surveyCount y = surveyCount x"
      unfolding facts(4) by simp
    have srv: "surveys y = (surveys x)(sid := ?s)"
      unfolding facts(4) using False by simp
    have "liabilities y + owed (surveys x sid) = liabilities x + owed ?s"
      using cnt srv sid by (rule liabilities_update)
    then show ?thesis by simp
  qed
qed

lemma liabilities_store:
  assumes "wf x" and "storeDecryptedVote a sid i v x = Inr y"
  shows "liabilities y = liabilities x" and "balance y = balance x"
proof -
  note facts = storeDecryptedVote_Inr [OF assms(2)]
  have sid: "sid < surveyCount x"
    using assms(1) facts(1) by (intro wf_exists) simp_all
  let ?s = "(surveys x sid)\<lparr>decryptedVotes := (decryptedVotes (surveys x sid))(i := v)\<rparr>"
  show "balance y = balance x"
    unfolding facts(3) by simp
  have cnt: "surveyCount y = surveyCount x"
    unfolding facts(3) by simp
  have srv: "surveys y = (surveys x)(sid := ?s)"
    unfolding facts(3) by simp
  have "liabilities y + owed (surveys x sid) = liabilities x + owed ?s"
    using cnt srv sid by (rule liabilities_update)
  then show "liabilities y = liabilities x" by simp
qed

lemma surplus_direct:
  assumes "wf x" and "liabilities x + k \<le> balance x" and "within_pool c x"
    and "exec c x = Inr y" and "receivers c = []"
  shows "liabilities y + k \<le> balance y"
  using assms(4,5)
proof (cases rule: exec_direct_cases)
  case (create a v q os d dep r)
  from assms(1,2) create(2) show ?thesis by (rule surplus_create)
next
  case (submit vf a v sid ch pr)
  from assms(3) have "(totalResponses (surveys x sid) + 1) * rewardPerResponse (surveys x sid)
           \<le> rewardPool (surveys x sid)"
    by (simp add: submit(1))
  with assms(1,2) show ?thesis using submit(2) by (rule surplus_submit)
next
  case (release a sid i)
  from liabilities_release [OF assms(1) release(2)] assms(2) show ?thesis by simp
next
  case (store a sid i v)
  from liabilities_store [OF assms(1) store(2)] assms(2) show ?thesis by simp
next
  case (receive a v)
  have "liabilities y = liabilities x"
    by (rule liabilities_same) (simp_all add: receive(2))
  moreover have "balance y = balance x + v"
    by (simp add: receive(2))
  ultimately show ?thesis using assms(2) by simp
next
  case (block t)
  have "liabilities y = liabilities x"
    by (rule liabilities_same) (simp_all add: block(3))
  moreover have "balance y = balance x"
    by (simp add: block(3))
  ultimately show ?thesis using assms(2) by simp
qed

lemma surplus_handP:
  assumes "wf x" and "liabilities x + k \<le> balance x"
    and "withdrawParticipantFunds recv a sid x = Inr y"
  shows "liabilities (handed_to_participant a sid x) + k \<le> balance (handed_to_participant a sid x)"
proof -
  note facts = withdrawParticipantFunds_Inr [OF assms(3)]
  let ?pay = "depositRequired (surveys x sid) + rewardPerResponse (surveys x sid)"
  let ?s = "(surveys x sid)\<lparr>hasWithdrawn := (hasWithdrawn (surveys x sid))(a := True)\<rparr>"
  have sid: "sid < surveyCount x"
    using assms(1) facts(1) by (intro wf_exists) simp_all
  have cnt: "surveyCount (handed_to_participant a sid x) = surveyCount x"
    by (simp add: handed_to_participant_def)
  have srv: "surveys (handed_to_participant a sid x) = (surveys x)(sid := ?s)"
    by (simp add: handed_to_participant_def)
  have bal: "balance (handed_to_participant a sid x) = balance x - ?pay"
    by (simp add: handed_to_participant_def)
  have "liabilities (handed_to_participant a sid x) + owed (surveys x sid)
               = liabilities x + owed ?s"
    using cnt srv sid by (rule liabilities_update)
  moreover have "owed ?s + ?pay = owed (surveys x sid)"
    using facts(2,3) by (rule owed_mark)
  ultimately have "liabilities (handed_to_participant a sid x) + ?pay = liabilities x"
    by linarith
  then show ?thesis
    using assms(2) bal facts(5) by linarith
qed

lemma surplus_handC:
  assumes "wf x" and "liabilities x + k \<le> balance x"
    and "withdrawRewardPool recv a sid x = Inr y"
  shows "liabilities (handed_to_creator sid x) + k \<le> balance (handed_to_creator sid x)"
proof -
  note facts = withdrawRewardPool_Inr [OF assms(3)]
  let ?pay = "remaining_pool (surveys x sid)"
  let ?s = "(surveys x sid)\<lparr>rewardPool := 0\<rparr>"
  have sid: "sid < surveyCount x"
    using assms(1) facts(1) by (intro wf_exists) simp_all
  have cnt: "surveyCount (handed_to_creator sid x) = surveyCount x"
    by (simp add: handed_to_creator_def)
  have srv: "surveys (handed_to_creator sid x) = (surveys x)(sid := ?s)"
    by (simp add: handed_to_creator_def)
  have bal: "balance (handed_to_creator sid x) = balance x - ?pay"
    by (simp add: handed_to_creator_def)
  have "liabilities (handed_to_creator sid x) + owed (surveys x sid)
               = liabilities x + owed ?s"
    using cnt srv sid by (rule liabilities_update)
  moreover have "owed ?s + ?pay = owed (surveys x sid)"
    using facts(4) by (rule owed_zero)
  ultimately have "liabilities (handed_to_creator sid x) + ?pay = liabilities x"
    by linarith
  then show ?thesis
    using assms(2) bal facts(5) by linarith
qed


lemma reach_surplus:
  assumes "reach within_pool l l'" and "wf l" and "liabilities l + k \<le> balance l"
  shows "liabilities l' + k \<le> balance l'"
proof -
  have "wf l' \<and> liabilities l' + k \<le> balance l'"
    using assms(1)
  proof (rule reach_invariant2)
    show "wf l \<and> liabilities l + k \<le> balance l" using assms by simp
  next
    fix c x y
    assume P: "wf x \<and> liabilities x + k \<le> balance x" and A: "within_pool c x"
      and dir: "receivers c = []" and ex: "exec c x = Inr y"
    from P have wfx: "wf x" and le: "liabilities x + k \<le> balance x" by simp_all
    have "wf y"
      using wfx ex dir by (rule wf_direct)
    moreover have "liabilities y + k \<le> balance y"
      using wfx le A ex dir by (rule surplus_direct)
    ultimately show "wf y \<and> liabilities y + k \<le> balance y" by simp
  next
    fix recv a sid x y
    assume P: "wf x \<and> liabilities x + k \<le> balance x"
      and ex: "withdrawParticipantFunds recv a sid x = Inr y"
    from P have wfx: "wf x" and le: "liabilities x + k \<le> balance x" by simp_all
    have "wf (handed_to_participant a sid x)"
      using wfx ex by (rule wf_handP)
    moreover have "liabilities (handed_to_participant a sid x) + k
                     \<le> balance (handed_to_participant a sid x)"
      using wfx le ex by (rule surplus_handP)
    ultimately show "wf (handed_to_participant a sid x) \<and>
        liabilities (handed_to_participant a sid x) + k \<le> balance (handed_to_participant a sid x)"
      by simp
  next
    fix recv a sid x y
    assume P: "wf x \<and> liabilities x + k \<le> balance x"
      and ex: "withdrawRewardPool recv a sid x = Inr y"
    from P have wfx: "wf x" and le: "liabilities x + k \<le> balance x" by simp_all
    have "wf (handed_to_creator sid x)"
      using wfx ex by (rule wf_handC)
    moreover have "liabilities (handed_to_creator sid x) + k \<le> balance (handed_to_creator sid x)"
      using wfx le ex by (rule surplus_handC)
    ultimately show "wf (handed_to_creator sid x) \<and>
        liabilities (handed_to_creator sid x) + k \<le> balance (handed_to_creator sid x)"
      by simp
  next
    fix x e
    assume P: "wf x \<and> liabilities x + k \<le> balance x"
    have "liabilities (x\<lparr>events := events x @ [e]\<rparr>) = liabilities x"
      by (rule liabilities_same) simp_all
    then show "wf (x\<lparr>events := events x @ [e]\<rparr>) \<and>
        liabilities (x\<lparr>events := events x @ [e]\<rparr>) + k \<le> balance (x\<lparr>events := events x @ [e]\<rparr>)"
      using P by simp
  qed
  then show ?thesis by simp
qed


subsection \<open>Custody\<close>

lemma genesis_solvent: "liabilities (genesis b t) \<le> balance (genesis b t)"
  by (simp add: liabilities_def genesis_def)

lemma run_funded_allowed: "allowed_run within_pool run_funded (genesis 0 0)"
  by (simp add: run_funded_def eval_simps)

lemma run_oversubscribed_allowed: "allowed_run any_call run_oversubscribed (genesis 0 0)"
  by (simp add: run_oversubscribed_def eval_simps any_call_def)

lemma run_oversubscribed_fields:
  "surveyCount (after run_oversubscribed) = 1"
  "balance (after run_oversubscribed) = 12"
  "hasVoted (surveys (after run_oversubscribed) 0) = (\<lambda>p. False)(2 := True, 3 := True)"
  "hasWithdrawn (surveys (after run_oversubscribed) 0) = (\<lambda>p. False)"
  "depositRequired (surveys (after run_oversubscribed) 0) = 1"
  "rewardPerResponse (surveys (after run_oversubscribed) 0) = 10"
  "rewardPool (surveys (after run_oversubscribed) 0) = 10"
  "totalResponses (surveys (after run_oversubscribed) 0) = 2"
  by (simp_all add: after_def run_oversubscribed_def eval_simps)

text \<open>
  Claim C1, as amended. At every ledger reached by calls in which every accepted
  response was within the pool of its survey (counting it, \<open>totalResponses *
  rewardPerResponse\<close> does not exceed \<open>rewardPool\<close>), the custodied balance is at least the
  sum, over all surveys, of \<open>depositRequired + rewardPerResponse\<close> for every participant
  who has voted and not withdrawn, plus what is left of the reward pool for the creator
  while the pool is not zeroed. The sum runs over the surveys below \<open>surveyCount\<close>; the
  slots above owe nothing. Without the restriction the claim fails: nothing in the
  contract caps the number of responses, and in \<open>run_oversubscribed\<close> two responses are
  owed 22 while the ledger holds 12.
\<close>

theorem funds_cover_entitlements:
  assumes "reachable_by within_pool l"
  shows "liabilities l \<le> balance l \<and>
         (\<forall>sid\<ge>surveyCount l. unwithdrawn (surveys l sid) = {} \<and>
                                creator_entitlement (surveys l sid) = 0)"
proof -
  from assms obtain b t where run: "reach within_pool (genesis b t) l"
    by (auto simp: reachable_by_def)
  have "liabilities (genesis b t) + 0 \<le> balance (genesis b t)"
    using genesis_solvent by simp
  with run wf_genesis have "liabilities l + 0 \<le> balance l"
    by (rule reach_surplus)
  moreover have "inv_fresh l"
    using reachable_wf [OF assms] by (rule wfD)
  then have "\<forall>sid\<ge>surveyCount l. unwithdrawn (surveys l sid) = {} \<and>
                                  creator_entitlement (surveys l sid) = 0"
    by (simp add: inv_fresh_def unwithdrawn_def creator_entitlement_def empty_survey_def)
  ultimately show ?thesis by simp
qed

theorem funds_cover_entitlements_witness:
  "reachable_by within_pool (after run_funded) \<and>
   liabilities (after run_funded) \<le> balance (after run_funded)"
  using funds_cover_entitlements [OF allowed_run_after(2) [OF run_funded_allowed]]
    allowed_run_after(2) [OF run_funded_allowed]
  by simp

theorem funds_cover_entitlements_counterexample:
  "reachable (after run_oversubscribed) \<and>
   balance (after run_oversubscribed) = 12 \<and>
   liabilities (after run_oversubscribed) = 22 \<and>
   \<not> liabilities (after run_oversubscribed) \<le> balance (after run_oversubscribed)"
proof -
  have "reachable (after run_oversubscribed)"
    using allowed_run_after(2) [OF run_oversubscribed_allowed] by (simp add: reachable_def)
  moreover have "unwithdrawn (surveys (after run_oversubscribed) 0) = {2, 3}"
    by (auto simp: unwithdrawn_def run_oversubscribed_fields)
  then have "owed (surveys (after run_oversubscribed) 0) = 22"
    by (simp add: owed_def participant_entitlements_def creator_entitlement_def
          run_oversubscribed_fields)
  then have "liabilities (after run_oversubscribed) = 22"
    by (simp add: liabilities_def run_oversubscribed_fields)
  ultimately show ?thesis
    by (simp add: run_oversubscribed_fields)
qed

subsection \<open>The encrypted tally update\<close>

text \<open>
  Claim C3. A successful \<open>submitResponse\<close> has converted the external input, whose proof
  the provider has verified, and on a survey with \<open>n\<close> options it leaves, for every
  option index \<open>i\<close> below \<open>n\<close>, in \<open>encryptedVotes[i]\<close> the homomorphic sum of the old counter
  and the selection of 1 or 0 by the equality test of the encrypted choice against
  \<open>uint8(i)\<close>. On the plaintexts: the counter of the option equal to the choice grows by
  1 and every other counter by 0 (in 32-bit arithmetic). The counters at and above \<open>n\<close>
  are untouched, \<open>hasVoted[caller]\<close> is true, nobody else's flag changes,
  \<open>totalResponses\<close> has grown by exactly 1, and the one event logged carries the caller,
  the timestamp and the value paid.
\<close>

theorem submitResponse_sweep:
  assumes "submitResponse vf a v sid c pr l = Inr l'"
  shows "FHE_fromExternal vf c pr = Inr c \<and>
         (\<forall>i<length (options (surveys l sid)).
            encryptedVotes (surveys l' sid) i =
              FHE_add (encryptedVotes (surveys l sid) i)
                (FHE_select (FHE_eq c (FHE_asEuint8 (of_nat i)))
                   (FHE_asEuint32 1) (FHE_asEuint32 0))) \<and>
         (\<forall>i<length (options (surveys l sid)).
            encryptedVotes (surveys l' sid) i =
              encryptedVotes (surveys l sid) i + (if c = of_nat i then 1 else 0)) \<and>
         (length (options (surveys l sid)) \<le> 256 \<longrightarrow>
            (\<forall>i<length (options (surveys l sid)).
               encryptedVotes (surveys l' sid) i =
                 encryptedVotes (surveys l sid) i + (if unat c = i then 1 else 0))) \<and>
         (\<forall>i\<ge>length (options (surveys l sid)).
            encryptedVotes (surveys l' sid) i = encryptedVotes (surveys l sid) i) \<and>
         hasVoted (surveys l' sid) a \<and>
         (\<forall>p. p \<noteq> a \<longrightarrow> hasVoted (surveys l' sid) p = hasVoted (surveys l sid) p) \<and>
         totalResponses (surveys l' sid) = totalResponses (surveys l sid) + 1 \<and>
         events l' = events l @ [ResponseSubmitted sid a (block_timestamp l) v]"
proof -
  note eq = submitResponse_Inr(7) [OF assms]
  have converted: "FHE_fromExternal vf c pr = Inr c"
    using submitResponse_Inr(8) [OF assms] by (simp add: FHE_fromExternal_def)
  have word_nat: "(c = of_nat i) = (unat c = i)" if "i < 256" for i
  proof
    assume "c = of_nat i"
    then show "unat c = i" using that by (simp add: unat_of_nat)
  next
    assume "unat c = i"
    then show "c = of_nat i" by auto
  qed
  show ?thesis
    unfolding eq converted
    by (auto simp: tally_loop_eq FHE_add_def FHE_select_def FHE_eq_def FHE_asEuint8_def
          FHE_asEuint32_def word_nat)
qed

theorem submitResponse_sweep_witness:
  "submitResponse accepting bob 1 0 1 [] (after run_created) =
     Inr (after (run_created @ [SubmitResponse accepting bob 1 0 1 []])) \<and>
   encryptedVotes
     (surveys (after (run_created @ [SubmitResponse accepting bob 1 0 1 []])) 0) 0 = 0 \<and>
   encryptedVotes
     (surveys (after (run_created @ [SubmitResponse accepting bob 1 0 1 []])) 0) 1 = 1 \<and>
   hasVoted (surveys (after (run_created @ [SubmitResponse accepting bob 1 0 1 []])) 0) bob \<and>
   totalResponses
     (surveys (after (run_created @ [SubmitResponse accepting bob 1 0 1 []])) 0) = 1"
proof -
  have run: "submitResponse accepting bob 1 0 1 [] (after run_created) =
     Inr (after (run_created @ [SubmitResponse accepting bob 1 0 1 []]))"
    by (simp add: after_def run_created_def eval_simps)
  have before: "length (options (surveys (after run_created) 0)) = 2"
    "encryptedVotes (surveys (after run_created) 0) 0 = 0"
    "encryptedVotes (surveys (after run_created) 0) 1 = 0"
    "totalResponses (surveys (after run_created) 0) = 0"
    by (simp_all add: after_def run_created_def eval_simps)
  show ?thesis
    using submitResponse_sweep [OF run] run before
    by (simp add: FHE_add_def FHE_select_def FHE_eq_def FHE_asEuint8_def FHE_asEuint32_def)
qed

subsection \<open>Statistics\<close>

text \<open>
  Claim C8. For a released survey \<open>getSurveyStatistics\<close> returns, for each option \<open>i\<close>,
  \<open>decryptedVotes[i] * 10000 / totalResponses\<close> in integer division, and zero for every
  option when \<open>totalResponses\<close> is zero. The instance below is the survey with 3
  options, 10 responses and the counts 3, 5, 2: the percentages are 3000, 5000, 2000.
\<close>

theorem getSurveyStatistics_percentages:
  assumes "resultsReleased (surveys l sid)"
  shows "getSurveyStatistics sid l =
           Inr (map (\<lambda>i. if totalResponses (surveys l sid) = 0 then 0
                         else (unat (decryptedVotes (surveys l sid) i) * 10000)
                                div totalResponses (surveys l sid))
                  [0..<length (options (surveys l sid))])"
  using assms
  by (auto simp: getSurveyStatistics_def Let_def stats_loop_eq intro!: nth_equalityI)

theorem getSurveyStatistics_percentages_witness:
  "resultsReleased (surveys ledger_3_5_2 0) \<and>
   length (options (surveys ledger_3_5_2 0)) = 3 \<and>
   totalResponses (surveys ledger_3_5_2 0) = 10 \<and>
   map (\<lambda>i. unat (decryptedVotes (surveys ledger_3_5_2 0) i)) [0, 1, 2] = [3, 5, 2] \<and>
   getSurveyStatistics 0 ledger_3_5_2 = Inr [3000, 5000, 2000]"
proof -
  have fields: "resultsReleased (surveys ledger_3_5_2 0)"
    "options (surveys ledger_3_5_2 0) = [''a'', ''b'', ''c'']"
    "totalResponses (surveys ledger_3_5_2 0) = 10"
    "decryptedVotes (surveys ledger_3_5_2 0) = (\<lambda>i. 0)(0 := 3, 1 := 5, 2 := 2)"
    by (simp_all add: ledger_3_5_2_def genesis_def empty_survey_def)
  have upt3: "[0..<3] = [0, 1, 2]"
    by (simp add: upt_rec)
  show ?thesis
    using getSurveyStatistics_percentages [OF fields(1)] fields
    by (simp add: upt3)
qed

subsection \<open>Creation\<close>

text \<open>
  Claim C9. \<open>createSurvey\<close> fails with fewer than 2 options (so with 1) and with more than
  10 (so with 11). With 2 to 10 options (so with exactly 2 and exactly 10) it succeeds
  when the other preconditions hold: a duration of at least \<open>MIN_DURATION\<close>, a reward per
  response that is positive and at most the value attached, and no overflow of the
  survey counter and the end time. A \<open>depositRequired\<close> of zero is replaced by
  \<open>DEFAULT_DEPOSIT\<close>. The call fails when \<open>rewardPerResponse\<close> is zero or exceeds the
  attached value.
\<close>

theorem createSurvey_bounds:
  "(length os < 2 \<or> length os > 10 \<longrightarrow>
      createSurvey a v q os d dep r l = Inl InvalidOptionCount) \<and>
   (2 \<le> length os \<and> length os \<le> 10 \<and> MIN_DURATION \<le> d \<and> 0 < r \<and> r \<le> v \<and>
    surveyCount l < MAX_UINT256 \<and> block_timestamp l + d \<le> MAX_UINT256 \<longrightarrow>
      (\<exists>l'. createSurvey a v q os d dep r l = Inr (surveyCount l, l') \<and>
            options (surveys l' (surveyCount l)) = os \<and>
            rewardPool (surveys l' (surveyCount l)) = v \<and>
            rewardPerResponse (surveys l' (surveyCount l)) = r \<and>
            depositRequired (surveys l' (surveyCount l)) =
              (if dep = 0 then DEFAULT_DEPOSIT else dep))) \<and>
   (r = 0 \<or> r > v \<longrightarrow> (\<exists>e. createSurvey a v q os d dep r l = Inl e)) \<and>
   (2 \<le> length os \<and> length os \<le> 10 \<and> MIN_DURATION \<le> d \<and> (r = 0 \<or> r > v) \<longrightarrow>
      createSurvey a v q os d dep r l = Inl InsufficientRewardPool)"
  by (auto simp: createSurvey_def Let_def MIN_OPTIONS_def MAX_OPTIONS_def)


theorem createSurvey_bounds_witness:
  "createSurvey alice 10 ''q'' [''a''] 60 0 10 (genesis 0 0) = Inl InvalidOptionCount \<and>
   createSurvey alice 10 ''q'' (replicate 11 ''a'') 60 0 10 (genesis 0 0) = Inl InvalidOptionCount \<and>
   (\<exists>l'. createSurvey alice 10 ''q'' [''a'', ''b''] 60 0 10 (genesis 0 0) = Inr (0, l') \<and>
      depositRequired (surveys l' 0) = DEFAULT_DEPOSIT) \<and>
   (\<exists>l'. createSurvey alice 10 ''q'' (replicate 10 ''a'') 60 5 10 (genesis 0 0) = Inr (0, l') \<and>
      depositRequired (surveys l' 0) = 5) \<and>
   createSurvey alice 10 ''q'' [''a'', ''b''] 60 0 0 (genesis 0 0) = Inl InsufficientRewardPool \<and>
   createSurvey alice 10 ''q'' [''a'', ''b''] 60 0 11 (genesis 0 0) = Inl InsufficientRewardPool"
  using createSurvey_bounds [where os = "[''a'']" and a = alice and v = 10 and q = "''q''"
      and d = 60 and dep = 0 and r = 10 and l = "genesis 0 0"]
    createSurvey_bounds [where os = "replicate 11 ''a''" and a = alice and v = 10 and q = "''q''"
      and d = 60 and dep = 0 and r = 10 and l = "genesis 0 0"]
    createSurvey_bounds [where os = "[''a'', ''b'']" and a = alice and v = 10 and q = "''q''"
      and d = 60 and dep = 0 and r = 10 and l = "genesis 0 0"]
    createSurvey_bounds [where os = "replicate 10 ''a''" and a = alice and v = 10 and q = "''q''"
      and d = 60 and dep = 5 and r = 10 and l = "genesis 0 0"]
    createSurvey_bounds [where os = "[''a'', ''b'']" and a = alice and v = 10 and q = "''q''"
      and d = 60 and dep = 0 and r = 0 and l = "genesis 0 0"]
    createSurvey_bounds [where os = "[''a'', ''b'']" and a = alice and v = 10 and q = "''q''"
      and d = 60 and dep = 0 and r = 11 and l = "genesis 0 0"]
  by (auto simp: MIN_DURATION_def MAX_UINT256_def genesis_def)

subsection \<open>Participant withdrawal\<close>

lemma reachable_wf_any:
  assumes "reachable l"
  shows "wf l"
  using assms reachable_wf by (simp add: reachable_def)

lemma well_behaved_later:
  assumes "well_behaved recv" and "fst (recv x)"
  shows "later x (snd (recv x))"
  using assms reach_later by (auto simp: well_behaved_def)

lemma withdrawParticipantFunds_later:
  assumes "withdrawParticipantFunds recv a sid l = Inr l'" and "well_behaved recv"
  shows "later (handed_to_participant a sid l) l'"
proof -
  note facts = withdrawParticipantFunds_Inr [OF assms(1)]
  have "later (handed_to_participant a sid l) (snd (recv (handed_to_participant a sid l)))"
    using assms(2) facts(6) by (rule well_behaved_later)
  moreover have "later (snd (recv (handed_to_participant a sid l))) l'"
    unfolding facts(7) by (rule later_events)
  ultimately show ?thesis by (rule later_trans)
qed

lemma withdrawRewardPool_later:
  assumes "withdrawRewardPool recv a sid l = Inr l'" and "well_behaved recv"
  shows "later (handed_to_creator sid l) l'"
proof -
  note facts = withdrawRewardPool_Inr [OF assms(1)]
  let ?m = "if remaining_pool (surveys l sid) > 0
            then snd (recv (handed_to_creator sid l)) else handed_to_creator sid l"
  have "later (handed_to_creator sid l) ?m"
    using well_behaved_later [OF assms(2)] facts(6) by simp
  moreover have "later ?m l'"
    unfolding facts(7) by (rule later_events)
  ultimately show ?thesis by (rule later_trans)
qed

lemma laterD:
  assumes "later l l'" and "sid < surveyCount l"
  shows "survey_kept (surveys l sid) (surveys l' sid)"
    and "block_timestamp l \<le> block_timestamp l'"
  using assms by (simp_all add: later_def)

lemma withdrawn_stays:
  assumes "later m l'" and "sid < surveyCount m" and "creator (surveys m sid) \<noteq> 0"
    and "hasVoted (surveys m sid) a" and "hasWithdrawn (surveys m sid) a"
  shows "withdrawParticipantFunds recv a sid l' = Inl AlreadyWithdrawn"
proof -
  have "survey_kept (surveys m sid) (surveys l' sid)"
    using assms(1,2) by (rule laterD)
  then show ?thesis
    using assms(3,4,5) by (simp add: withdrawParticipantFunds_def survey_kept_def)
qed

text \<open>
  Claim C5, as amended. For a participant who has voted and not withdrawn,
  \<open>withdrawParticipantFunds\<close> succeeds whenever deposit plus reward fit a \<open>uint256\<close>, the
  custodied balance covers them and the recipient accepts the transfer; no condition
  on the time or on the survey being closed. The recipient is handed a ledger in which
  \<open>hasWithdrawn[caller]\<close> is already true and exactly \<open>depositRequired +
  rewardPerResponse\<close> is debited, in that one transfer; a call back into
  \<open>withdrawParticipantFunds\<close> from there fails. After a success every further call of the
  participant fails, in every later ledger. A call from a non-voter and a call from a
  participant who has withdrawn fail. It is not true that the call of a voter always
  succeeds: in \<open>run_drained\<close> the balance is 1, and the second voter is owed 11.
\<close>

theorem withdrawParticipantFunds_once:
  assumes "reachable l"
  shows "(hasVoted (surveys l sid) a \<and> \<not> hasWithdrawn (surveys l sid) a \<and>
          depositRequired (surveys l sid) + rewardPerResponse (surveys l sid) \<le> MAX_UINT256 \<and>
          depositRequired (surveys l sid) + rewardPerResponse (surveys l sid) \<le> balance l \<and>
          fst (recv (handed_to_participant a sid l)) \<longrightarrow>
            withdrawParticipantFunds recv a sid l =
              Inr ((snd (recv (handed_to_participant a sid l)))
                \<lparr>events := events (snd (recv (handed_to_participant a sid l))) @
                   [ParticipantWithdrawal sid a (depositRequired (surveys l sid))
                      (rewardPerResponse (surveys l sid))
                      (depositRequired (surveys l sid) + rewardPerResponse (surveys l sid))]\<rparr>) \<and>
            hasWithdrawn (surveys (handed_to_participant a sid l) sid) a \<and>
            balance (handed_to_participant a sid l) =
              balance l - (depositRequired (surveys l sid) + rewardPerResponse (surveys l sid)) \<and>
            withdrawParticipantFunds recv' a sid (handed_to_participant a sid l) =
              Inl AlreadyWithdrawn) \<and>
         (withdrawParticipantFunds recv a sid l = Inr l' \<and> well_behaved recv \<and>
          reach any_call l' l'' \<longrightarrow>
            withdrawParticipantFunds recv' a sid l'' = Inl AlreadyWithdrawn) \<and>
         (\<not> hasVoted (surveys l sid) a \<longrightarrow>
            withdrawParticipantFunds recv a sid l =
              (if creator (surveys l sid) = 0 then Inl SurveyNotFound else Inl NotParticipant)) \<and>
         (hasVoted (surveys l sid) a \<and> hasWithdrawn (surveys l sid) a \<longrightarrow>
            withdrawParticipantFunds recv a sid l = Inl AlreadyWithdrawn)"
proof -
  have wf: "wf l" using assms by (rule reachable_wf_any)
  have creator: "creator (surveys l sid) \<noteq> 0" if "hasVoted (surveys l sid) a"
    using wfD(2) [OF wf, of sid] that by (auto simp: survey_ok_def)
  have first: "withdrawParticipantFunds recv a sid l =
              Inr ((snd (recv (handed_to_participant a sid l)))
                \<lparr>events := events (snd (recv (handed_to_participant a sid l))) @
                   [ParticipantWithdrawal sid a (depositRequired (surveys l sid))
                      (rewardPerResponse (surveys l sid))
                      (depositRequired (surveys l sid) + rewardPerResponse (surveys l sid))]\<rparr>)"
    if "hasVoted (surveys l sid) a" "\<not> hasWithdrawn (surveys l sid) a"
      "depositRequired (surveys l sid) + rewardPerResponse (surveys l sid) \<le> MAX_UINT256"
      "depositRequired (surveys l sid) + rewardPerResponse (surveys l sid) \<le> balance l"
      "fst (recv (handed_to_participant a sid l))"
    using that creator
    by (auto simp: withdrawParticipantFunds_def handed_to_participant_def Let_def
          split: prod.splits)
  have handed: "hasWithdrawn (surveys (handed_to_participant a sid l) sid) a"
    "balance (handed_to_participant a sid l) =
       balance l - (depositRequired (surveys l sid) + rewardPerResponse (surveys l sid))"
    by (simp_all add: handed_to_participant_def)
  have reenter: "withdrawParticipantFunds recv' a sid (handed_to_participant a sid l) =
              Inl AlreadyWithdrawn" if "hasVoted (surveys l sid) a"
    using that creator
    by (simp add: withdrawParticipantFunds_def handed_to_participant_def)
  have again: "withdrawParticipantFunds recv' a sid l'' = Inl AlreadyWithdrawn"
    if ok: "withdrawParticipantFunds recv a sid l = Inr l'" and wb: "well_behaved recv"
      and run: "reach any_call l' l''"
  proof -
    note facts = withdrawParticipantFunds_Inr [OF ok]
    have "later (handed_to_participant a sid l) l'"
      using ok wb by (rule withdrawParticipantFunds_later)
    moreover have "later l' l''"
      using run by (rule reach_later)
    ultimately have "later (handed_to_participant a sid l) l''"
      by (rule later_trans)
    moreover have "sid < surveyCount (handed_to_participant a sid l)"
      using wf_exists [OF wf, of sid] facts(1) by (simp add: handed_to_participant_def)
    moreover have "creator (surveys (handed_to_participant a sid l) sid) \<noteq> 0"
      "hasVoted (surveys (handed_to_participant a sid l) sid) a"
      "hasWithdrawn (surveys (handed_to_participant a sid l) sid) a"
      using facts(1,2) by (simp_all add: handed_to_participant_def)
    ultimately show ?thesis by (rule withdrawn_stays)
  qed
  have stranger: "withdrawParticipantFunds recv a sid l =
              (if creator (surveys l sid) = 0 then Inl SurveyNotFound else Inl NotParticipant)"
    if "\<not> hasVoted (surveys l sid) a"
    using that by (simp add: withdrawParticipantFunds_def)
  have already: "withdrawParticipantFunds recv a sid l = Inl AlreadyWithdrawn"
    if "hasVoted (surveys l sid) a" "hasWithdrawn (surveys l sid) a"
    using that creator by (simp add: withdrawParticipantFunds_def)
  show ?thesis
    using first handed reenter again stranger already by blast
qed


lemma well_behaved_accept: "well_behaved accept"
  by (simp add: well_behaved_def accept_def reach.reach_refl)

lemma run_voted_allowed: "allowed_run any_call run_voted (genesis 0 0)"
  by (simp add: run_voted_def eval_simps any_call_def)

lemma run_drained_allowed: "allowed_run any_call run_drained (genesis 0 0)"
  by (simp add: run_drained_def run_oversubscribed_def eval_simps any_call_def)

lemma allowed_run_reachable:
  assumes "allowed_run any_call cs (genesis 0 0)"
  shows "reachable (after cs)"
  using allowed_run_after(2) [OF assms] by (simp add: reachable_def)

theorem withdrawParticipantFunds_once_witness:
  "reachable (after run_voted) \<and>
   hasVoted (surveys (after run_voted) 0) bob \<and>
   \<not> hasWithdrawn (surveys (after run_voted) 0) bob \<and>
   withdrawParticipantFunds accept bob 0 (after run_voted) = Inr (after run_withdrawn) \<and>
   balance (handed_to_participant bob 0 (after run_voted)) = balance (after run_voted) - 6 \<and>
   withdrawParticipantFunds accept bob 0 (after run_withdrawn) = Inl AlreadyWithdrawn \<and>
   withdrawParticipantFunds accept carol 0 (after run_voted) = Inl NotParticipant"
proof -
  have reach: "reachable (after run_voted)"
    using run_voted_allowed by (rule allowed_run_reachable)
  have fields: "hasVoted (surveys (after run_voted) 0) bob"
    "\<not> hasWithdrawn (surveys (after run_voted) 0) bob"
    "\<not> hasVoted (surveys (after run_voted) 0) carol"
    "creator (surveys (after run_voted) 0) \<noteq> 0"
    "depositRequired (surveys (after run_voted) 0) = 1"
    "rewardPerResponse (surveys (after run_voted) 0) = 5"
    "balance (after run_voted) = 11"
    by (simp_all add: after_def run_voted_def eval_simps)
  have ok: "withdrawParticipantFunds accept bob 0 (after run_voted) = Inr (after run_withdrawn)"
    by (simp add: after_def run_withdrawn_def run_voted_def eval_simps)
  have pay: "depositRequired (surveys (after run_voted) 0) +
             rewardPerResponse (surveys (after run_voted) 0) = 6"
    by (simp add: fields)
  have hyps: "depositRequired (surveys (after run_voted) 0) +
                rewardPerResponse (surveys (after run_voted) 0) \<le> MAX_UINT256"
    "depositRequired (surveys (after run_voted) 0) +
       rewardPerResponse (surveys (after run_voted) 0) \<le> balance (after run_voted)"
    "fst (accept (handed_to_participant bob 0 (after run_voted)))"
    by (simp_all add: fields MAX_UINT256_def accept_def)
  note once = withdrawParticipantFunds_once [OF reach, where sid = 0 and a = bob
      and recv = accept and recv' = accept and l' = "after run_withdrawn"
      and l'' = "after run_withdrawn"]
  have "balance (handed_to_participant bob 0 (after run_voted)) =
          balance (after run_voted) -
            (depositRequired (surveys (after run_voted) 0) +
             rewardPerResponse (surveys (after run_voted) 0))"
    using once fields(1,2) hyps by blast
  then have debit: "balance (handed_to_participant bob 0 (after run_voted)) =
                      balance (after run_voted) - 6"
    by (simp only: pay)
  have again: "withdrawParticipantFunds accept bob 0 (after run_withdrawn) = Inl AlreadyWithdrawn"
    using once ok well_behaved_accept reach.reach_refl [of any_call "after run_withdrawn"]
    by blast
  have stranger: "withdrawParticipantFunds accept carol 0 (after run_voted) = Inl NotParticipant"
    using withdrawParticipantFunds_once [OF reach, where sid = 0 and a = carol and recv = accept]
      fields(3,4)
    by simp
  show ?thesis
    using reach fields(1,2) ok debit again stranger by blast
qed

theorem withdrawParticipantFunds_once_counterexample:
  "reachable (after run_drained) \<and>
   hasVoted (surveys (after run_drained) 0) carol \<and>
   \<not> hasWithdrawn (surveys (after run_drained) 0) carol \<and>
   withdrawParticipantFunds accept carol 0 (after run_drained) =
     Inl (Require ''Insufficient contract balance'')"
proof -
  have "reachable (after run_drained)"
    using run_drained_allowed by (rule allowed_run_reachable)
  then show ?thesis
    by (simp add: after_def run_drained_def run_oversubscribed_def eval_simps)
qed

subsection \<open>Creator withdrawal\<close>

lemma pool_stays_empty:
  assumes "later m l'" and "sid < surveyCount m" and "creator (surveys m sid) \<noteq> 0"
    and "endTime (surveys m sid) \<le> block_timestamp m" and "rewardPool (surveys m sid) = 0"
  shows "withdrawRewardPool recv b sid l' =
           (if b \<noteq> creator (surveys m sid) then Inl NotCreator else Inl RewardPoolEmpty)"
proof -
  have "survey_kept (surveys m sid) (surveys l' sid)"
    and "block_timestamp m \<le> block_timestamp l'"
    using assms(1,2) by (rule laterD)+
  then show ?thesis
    using assms(3,4,5) by (simp add: withdrawRewardPool_def survey_kept_def)
qed

text \<open>
  Claim C6. A successful \<open>withdrawRewardPool\<close> was called by the creator of the survey, at
  or after \<open>endTime\<close>, with a nonzero \<open>rewardPool\<close>. It pays exactly \<open>rewardPool -
  totalResponses * rewardPerResponse\<close>, floored at zero: that amount is debited, and when
  it is positive the creator is handed a ledger in which \<open>rewardPool\<close> is already zero
  (when it is zero nothing is transferred). Every further call on the survey fails, from
  inside the transfer and in every later ledger: for the creator because \<open>rewardPool\<close> is
  zero, for anybody else because they are not the creator.
\<close>

theorem withdrawRewardPool_once:
  assumes "reachable l" and "withdrawRewardPool recv a sid l = Inr l'"
  shows "a = creator (surveys l sid) \<and>
         endTime (surveys l sid) \<le> block_timestamp l \<and>
         rewardPool (surveys l sid) \<noteq> 0 \<and>
         remaining_pool (surveys l sid) =
           (if rewardPool (surveys l sid)
                 > totalResponses (surveys l sid) * rewardPerResponse (surveys l sid)
            then rewardPool (surveys l sid)
                 - totalResponses (surveys l sid) * rewardPerResponse (surveys l sid)
            else 0) \<and>
         rewardPool (surveys (handed_to_creator sid l) sid) = 0 \<and>
         remaining_pool (surveys l sid) \<le> balance l \<and>
         balance (handed_to_creator sid l) = balance l - remaining_pool (surveys l sid) \<and>
         (0 < remaining_pool (surveys l sid) \<longrightarrow>
            fst (recv (handed_to_creator sid l)) \<and>
            l' = (snd (recv (handed_to_creator sid l)))
                   \<lparr>events := events (snd (recv (handed_to_creator sid l))) @
                      [RewardPoolWithdrawn sid a (remaining_pool (surveys l sid))]\<rparr>) \<and>
         (remaining_pool (surveys l sid) = 0 \<longrightarrow>
            l' = (handed_to_creator sid l)
                   \<lparr>events := events (handed_to_creator sid l) @
                      [RewardPoolWithdrawn sid a 0]\<rparr>) \<and>
         withdrawRewardPool recv' b sid (handed_to_creator sid l) =
           (if b \<noteq> a then Inl NotCreator else Inl RewardPoolEmpty) \<and>
         (well_behaved recv \<and> reach any_call l' l'' \<longrightarrow>
            withdrawRewardPool recv' b sid l'' =
              (if b \<noteq> a then Inl NotCreator else Inl RewardPoolEmpty))"
proof -
  note facts = withdrawRewardPool_Inr [OF assms(2)]
  let ?h = "handed_to_creator sid l"
  have wf: "wf l" using assms(1) by (rule reachable_wf_any)
  have sid: "sid < surveyCount ?h"
    using wf_exists [OF wf, of sid] facts(1) by (simp add: handed_to_creator_def)
  have handed: "creator (surveys ?h sid) = a" "creator (surveys ?h sid) \<noteq> 0"
    "endTime (surveys ?h sid) \<le> block_timestamp ?h" "rewardPool (surveys ?h sid) = 0"
    "balance ?h = balance l - remaining_pool (surveys l sid)"
    using facts(1,2,3) by (simp_all add: handed_to_creator_def)
  have inside: "withdrawRewardPool recv' b sid ?h =
                  (if b \<noteq> a then Inl NotCreator else Inl RewardPoolEmpty)"
    using pool_stays_empty [OF later_refl sid handed(2,3,4)] handed(1) by simp
  have after: "withdrawRewardPool recv' b sid l'' =
                  (if b \<noteq> a then Inl NotCreator else Inl RewardPoolEmpty)"
    if wb: "well_behaved recv" and run: "reach any_call l' l''"
  proof -
    have "later ?h l'"
      using assms(2) wb by (rule withdrawRewardPool_later)
    moreover have "later l' l''"
      using run by (rule reach_later)
    ultimately have "later ?h l''"
      by (rule later_trans)
    from pool_stays_empty [OF this sid handed(2,3,4)] handed(1) show ?thesis by simp
  qed
  have paid: "fst (recv ?h) \<and>
              l' = (snd (recv ?h))\<lparr>events := events (snd (recv ?h)) @
                      [RewardPoolWithdrawn sid a (remaining_pool (surveys l sid))]\<rparr>"
    if "0 < remaining_pool (surveys l sid)"
    using facts(6,7) that facts(2) by simp
  have unpaid: "l' = ?h\<lparr>events := events ?h @ [RewardPoolWithdrawn sid a 0]\<rparr>"
    if "remaining_pool (surveys l sid) = 0"
    using facts(7) that facts(2) by simp
  have amount: "remaining_pool (surveys l sid) =
           (if rewardPool (surveys l sid)
                 > totalResponses (surveys l sid) * rewardPerResponse (surveys l sid)
            then rewardPool (surveys l sid)
                 - totalResponses (surveys l sid) * rewardPerResponse (surveys l sid)
            else 0)"
    by (simp add: remaining_pool_def)
  show ?thesis
    using facts(2,3,4,5) handed(4,5) inside after paid unpaid amount by blast
qed

lemma run_closed_allowed: "allowed_run any_call run_closed (genesis 0 0)"
  by (simp add: run_closed_def run_voted_def eval_simps any_call_def)

theorem withdrawRewardPool_once_witness:
  "reachable (after run_closed) \<and>
   withdrawRewardPool accept alice 0 (after run_closed) = Inr (after run_pool_withdrawn) \<and>
   rewardPool (surveys (after run_closed) 0) = 10 \<and>
   totalResponses (surveys (after run_closed) 0) * rewardPerResponse (surveys (after run_closed) 0) = 5 \<and>
   balance (handed_to_creator 0 (after run_closed)) = balance (after run_closed) - 5 \<and>
   rewardPool (surveys (handed_to_creator 0 (after run_closed)) 0) = 0 \<and>
   withdrawRewardPool accept alice 0 (after run_pool_withdrawn) = Inl RewardPoolEmpty"
proof -
  have reach: "reachable (after run_closed)"
    using run_closed_allowed by (rule allowed_run_reachable)
  have ok: "withdrawRewardPool accept alice 0 (after run_closed) = Inr (after run_pool_withdrawn)"
    by (simp add: after_def run_pool_withdrawn_def run_closed_def run_voted_def eval_simps)
  have fields: "rewardPool (surveys (after run_closed) 0) = 10"
    "totalResponses (surveys (after run_closed) 0)
       * rewardPerResponse (surveys (after run_closed) 0) = 5"
    by (simp_all add: after_def run_closed_def run_voted_def eval_simps)
  then have rem: "remaining_pool (surveys (after run_closed) 0) = 5"
    by (simp add: remaining_pool_def)
  note once = withdrawRewardPool_once [OF reach ok, where recv' = accept and b = alice
      and l'' = "after run_pool_withdrawn"]
  have "balance (handed_to_creator 0 (after run_closed)) =
          balance (after run_closed) - remaining_pool (surveys (after run_closed) 0)"
    and zero: "rewardPool (surveys (handed_to_creator 0 (after run_closed)) 0) = 0"
    using once by blast+
  then have debit: "balance (handed_to_creator 0 (after run_closed)) = balance (after run_closed) - 5"
    by (simp only: rem)
  have "withdrawRewardPool accept alice 0 (after run_pool_withdrawn) =
          (if alice \<noteq> alice then Inl NotCreator else Inl RewardPoolEmpty)"
    using once well_behaved_accept reach.reach_refl [of any_call "after run_pool_withdrawn"]
    by blast
  then have again: "withdrawRewardPool accept alice 0 (after run_pool_withdrawn) = Inl RewardPoolEmpty"
    by simp
  show ?thesis
    using reach ok fields debit zero again by blast
qed

subsection \<open>The released transition\<close>

lemma reachable_inv_released:
  assumes "reachable l"
  shows "inv_released l"
  using assms reach_inv_released inv_fresh_genesis inv_released_genesis
  by (auto simp: reachable_def reachable_by_def)

lemma reachable_reach:
  assumes "reachable l" and "reach any_call l l'"
  shows "reachable l'"
  using assms by (auto simp: reachable_def reachable_by_def intro: reach_trans)

lemma reachable_exec:
  assumes "reachable l" and "exec c l = Inr l'"
    and "\<forall>r\<in>set (receivers c). well_behaved r"
  shows "reachable l'"
proof -
  have "reach any_call l l'"
    using reach.reach_refl [of any_call l] _ _ assms(2)
    by (rule reach.reach_step) (use assms(3) in \<open>auto simp: any_call_def well_behaved_def\<close>)
  with assms(1) show ?thesis by (rule reachable_reach)
qed

text \<open>
  Claim C7. \<open>releaseAndRequestDecrypt\<close> succeeds for a known survey at or after
  \<open>endTime\<close> and a valid option index, whoever calls. The first successful call (the
  survey is not yet released) sets \<open>resultsReleased\<close>, clears \<open>isActive\<close> and logs the
  released signal followed by the decryption request; a successful call on a released
  survey changes no storage and logs the decryption request only. In every reachable
  ledger the log holds the released signal of a survey once if the survey is released
  and not at all otherwise, so after a successful reveal call it holds it exactly once,
  and so it stays in every later ledger.
\<close>

theorem released_signal_once:
  assumes "reachable l"
  shows "((\<exists>l'. releaseAndRequestDecrypt a sid i l = Inr l') =
            (creator (surveys l sid) \<noteq> 0 \<and> endTime (surveys l sid) \<le> block_timestamp l \<and>
             i < length (options (surveys l sid)))) \<and>
         released_signals sid (events l) = (if resultsReleased (surveys l sid) then 1 else 0) \<and>
         (releaseAndRequestDecrypt a sid i l = Inr l' \<longrightarrow>
            resultsReleased (surveys l' sid) \<and>
            released_signals sid (events l') = 1 \<and>
            (\<not> resultsReleased (surveys l sid) \<longrightarrow>
               \<not> isActive (surveys l' sid) \<and>
               events l' = events l @
                 [ResultsReleased sid (block_timestamp l),
                  DecryptionRequested sid i (FHE_toBytes32 (encryptedVotes (surveys l sid) i))]) \<and>
            (resultsReleased (surveys l sid) \<longrightarrow>
               surveys l' = surveys l \<and>
               events l' = events l @
                 [DecryptionRequested sid i (FHE_toBytes32 (encryptedVotes (surveys l sid) i))]) \<and>
            (reach any_call l' l'' \<longrightarrow>
               resultsReleased (surveys l'' sid) \<and> released_signals sid (events l'') = 1))"
proof -
  have wf: "wf l" using assms by (rule reachable_wf_any)
  have count: "released_signals s (events x) = (if resultsReleased (surveys x s) then 1 else 0)"
    if "reachable x" for x s
    using reachable_inv_released [OF that] by (simp add: inv_released_def)
  have guard: "(\<exists>l'. releaseAndRequestDecrypt a sid i l = Inr l') =
            (creator (surveys l sid) \<noteq> 0 \<and> endTime (surveys l sid) \<le> block_timestamp l \<and>
             i < length (options (surveys l sid)))"
    by (auto simp: releaseAndRequestDecrypt_def Let_def)
  have post: "resultsReleased (surveys l' sid) \<and>
            released_signals sid (events l') = 1 \<and>
            (\<not> resultsReleased (surveys l sid) \<longrightarrow>
               \<not> isActive (surveys l' sid) \<and>
               events l' = events l @
                 [ResultsReleased sid (block_timestamp l),
                  DecryptionRequested sid i (FHE_toBytes32 (encryptedVotes (surveys l sid) i))]) \<and>
            (resultsReleased (surveys l sid) \<longrightarrow>
               surveys l' = surveys l \<and>
               events l' = events l @
                 [DecryptionRequested sid i (FHE_toBytes32 (encryptedVotes (surveys l sid) i))]) \<and>
            (reach any_call l' l'' \<longrightarrow>
               resultsReleased (surveys l'' sid) \<and> released_signals sid (events l'') = 1)"
    if ok: "releaseAndRequestDecrypt a sid i l = Inr l'"
  proof -
    note facts = releaseAndRequestDecrypt_Inr [OF ok]
    have released: "resultsReleased (surveys l' sid)"
      unfolding facts(4) by simp
    have reach': "reachable l'"
      using assms by (rule reachable_exec [where c = "ReleaseAndRequestDecrypt a sid i"])
        (simp_all add: ok)
    have one: "released_signals sid (events l') = 1"
      using count [OF reach', of sid] released by simp
    have first: "\<not> isActive (surveys l' sid) \<and>
               events l' = events l @
                 [ResultsReleased sid (block_timestamp l),
                  DecryptionRequested sid i (FHE_toBytes32 (encryptedVotes (surveys l sid) i))]"
      if "\<not> resultsReleased (surveys l sid)"
      unfolding facts(4) using that by simp
    have later_calls: "surveys l' = surveys l \<and>
               events l' = events l @
                 [DecryptionRequested sid i (FHE_toBytes32 (encryptedVotes (surveys l sid) i))]"
      if "resultsReleased (surveys l sid)"
      unfolding facts(4) using that by simp
    have stays: "resultsReleased (surveys l'' sid) \<and> released_signals sid (events l'') = 1"
      if run: "reach any_call l' l''"
    proof -
      have "sid < surveyCount l'"
        using wf_exists [OF wf, of sid] facts(1) unfolding facts(4) by simp
      with reach_later [OF run] have "survey_kept (surveys l' sid) (surveys l'' sid)"
        by (rule laterD)
      then have "resultsReleased (surveys l'' sid)"
        using released by (simp add: survey_kept_def)
      moreover have "reachable l''"
        using reach' run by (rule reachable_reach)
      ultimately show ?thesis
        using count [of l'' sid] by simp
    qed
    show ?thesis
      using released one first later_calls stays by blast
  qed
  show ?thesis
    using guard count [OF assms, of sid] post by blast
qed

lemma run_released_allowed: "allowed_run any_call run_released (genesis 0 0)"
  by (simp add: run_released_def run_closed_def run_voted_def eval_simps any_call_def)

theorem released_signal_once_witness:
  "reachable (after run_closed) \<and>
   \<not> resultsReleased (surveys (after run_closed) 0) \<and>
   released_signals 0 (events (after run_closed)) = 0 \<and>
   releaseAndRequestDecrypt carol 0 1 (after run_closed) = Inr (after run_released) \<and>
   resultsReleased (surveys (after run_released) 0) \<and>
   \<not> isActive (surveys (after run_released) 0) \<and>
   released_signals 0 (events (after run_released)) = 1 \<and>
   releaseAndRequestDecrypt bob 0 0 (after run_released) = Inr (after run_released_twice) \<and>
   released_signals 0 (events (after run_released_twice)) = 1"
proof -
  have reach: "reachable (after run_closed)"
    using run_closed_allowed by (rule allowed_run_reachable)
  have reach2: "reachable (after run_released)"
    using run_released_allowed by (rule allowed_run_reachable)
  have ok: "releaseAndRequestDecrypt carol 0 1 (after run_closed) = Inr (after run_released)"
    by (simp add: after_def run_released_def run_closed_def run_voted_def eval_simps)
  have ok2: "releaseAndRequestDecrypt bob 0 0 (after run_released) = Inr (after run_released_twice)"
    by (simp add: after_def run_released_twice_def run_released_def run_closed_def
          run_voted_def eval_simps)
  have fresh: "\<not> resultsReleased (surveys (after run_closed) 0)"
    by (simp add: after_def run_closed_def run_voted_def eval_simps)
  note first = released_signal_once [OF reach, where a = carol and sid = 0 and i = 1
      and l' = "after run_released" and l'' = "after run_released"]
  note second = released_signal_once [OF reach2, where a = bob and sid = 0 and i = 0
      and l' = "after run_released_twice" and l'' = "after run_released_twice"]
  have zero: "released_signals 0 (events (after run_closed)) = 0"
    using first fresh by simp
  have "resultsReleased (surveys (after run_released) 0)"
    "\<not> isActive (surveys (after run_released) 0)"
    "released_signals 0 (events (after run_released)) = 1"
    using first ok fresh by blast+
  moreover have "released_signals 0 (events (after run_released_twice)) = 1"
    using second ok2 by blast
  ultimately show ?thesis
    using reach fresh zero ok ok2 by blast
qed

subsection \<open>Rejected responses\<close>

lemma card_addresses_le: "card {p::address. P p} \<le> 2 ^ 160"
proof -
  have "card {p::address. P p} \<le> card (UNIV :: address set)"
    by (rule card_mono) simp_all
  then show ?thesis by (simp add: card_word)
qed

lemma wf_no_overflow:
  assumes "wf l"
  shows "totalResponses (surveys l sid) < MAX_UINT256"
proof -
  have "totalResponses (surveys l sid) = card {p. hasVoted (surveys l sid) p}"
    using wfD(2) [OF assms, of sid] by (simp add: survey_ok_def)
  also have "\<dots> \<le> 2 ^ 160" by (rule card_addresses_le)
  also have "(2::nat) ^ 160 < MAX_UINT256" by (simp add: MAX_UINT256_def)
  finally show ?thesis .
qed

lemma voted_stays:
  assumes "later m l'" and "sid < surveyCount m" and "creator (surveys m sid) \<noteq> 0"
    and "hasVoted (surveys m sid) a"
  shows "submitResponse vf a v sid ch pr l' =
           (if block_timestamp l' < endTime (surveys m sid) \<and> isActive (surveys l' sid)
            then Inl AlreadyVoted else Inl SurveyEnded)"
proof -
  have "survey_kept (surveys m sid) (surveys l' sid)"
    using assms(1,2) by (rule laterD)
  then show ?thesis
    using assms(3,4) by (auto simp: submitResponse_def survey_kept_def Let_def)
qed

text \<open>
  Claim C4, as amended. On a reachable ledger \<open>submitResponse\<close> rejects the call exactly
  when the survey is unknown, the time is at or after \<open>endTime\<close>, the survey is no longer
  active, the caller has already voted, the attached value is below \<open>depositRequired\<close>,
  or the provider does not verify the proof of the encrypted input; the errors come in
  this order, and otherwise the call succeeds. A rejected call returns an error and no
  ledger. After a successful call of a participant every later call of that participant
  on that survey fails, whatever it carries: with \<open>AlreadyVoted\<close> while the survey is
  open, and with \<open>SurveyEnded\<close> once the time has reached \<open>endTime\<close> or the survey is
  inactive, because these checks come first. So at most one call succeeds, but the
  later ones do not all fail with the duplicate-action error.
\<close>

theorem submitResponse_rejections:
  assumes "reachable l"
  shows "submitResponse vf a v sid ch pr l =
           (if creator (surveys l sid) = 0 then Inl SurveyNotFound
            else if block_timestamp l \<ge> endTime (surveys l sid) then Inl SurveyEnded
            else if \<not> isActive (surveys l sid) then Inl SurveyEnded
            else if hasVoted (surveys l sid) a then Inl AlreadyVoted
            else if v < depositRequired (surveys l sid) then Inl InsufficientDeposit
            else if \<not> vf ch pr then Inl InputProofRejected
            else Inr (l\<lparr>balance := balance l + v,
                 surveys := (surveys l)(sid := (surveys l sid)
                   \<lparr>encryptedVotes := tally_loop ch 0
                        (length (options (surveys l sid))) (encryptedVotes (surveys l sid)),
                    hasVoted := (hasVoted (surveys l sid))(a := True),
                    totalResponses := totalResponses (surveys l sid) + 1\<rparr>),
                 events := events l @ [ResponseSubmitted sid a (block_timestamp l) v]\<rparr>)) \<and>
         ((\<exists>e. submitResponse vf a v sid ch pr l = Inl e) =
            (creator (surveys l sid) = 0 \<or> block_timestamp l \<ge> endTime (surveys l sid) \<or>
             \<not> isActive (surveys l sid) \<or> hasVoted (surveys l sid) a \<or>
             v < depositRequired (surveys l sid) \<or> \<not> vf ch pr)) \<and>
         (submitResponse vf a v sid ch pr l = Inr l' \<and> reach any_call l' l'' \<longrightarrow>
            submitResponse vf' a v' sid ch' pr' l'' =
              (if block_timestamp l'' < endTime (surveys l sid) \<and> isActive (surveys l'' sid)
               then Inl AlreadyVoted else Inl SurveyEnded))"
proof -
  have wf: "wf l" using assms by (rule reachable_wf_any)
  have room: "\<not> totalResponses (surveys l sid) + 1 > MAX_UINT256"
    using wf_no_overflow [OF wf, of sid] by simp
  have result: "submitResponse vf a v sid ch pr l =
           (if creator (surveys l sid) = 0 then Inl SurveyNotFound
            else if block_timestamp l \<ge> endTime (surveys l sid) then Inl SurveyEnded
            else if \<not> isActive (surveys l sid) then Inl SurveyEnded
            else if hasVoted (surveys l sid) a then Inl AlreadyVoted
            else if v < depositRequired (surveys l sid) then Inl InsufficientDeposit
            else if \<not> vf ch pr then Inl InputProofRejected
            else Inr (l\<lparr>balance := balance l + v,
                 surveys := (surveys l)(sid := (surveys l sid)
                   \<lparr>encryptedVotes := tally_loop ch 0
                        (length (options (surveys l sid))) (encryptedVotes (surveys l sid)),
                    hasVoted := (hasVoted (surveys l sid))(a := True),
                    totalResponses := totalResponses (surveys l sid) + 1\<rparr>),
                 events := events l @ [ResponseSubmitted sid a (block_timestamp l) v]\<rparr>))"
    using room by (simp add: submitResponse_def FHE_fromExternal_def Let_def)
  have exactly: "(\<exists>e. submitResponse vf a v sid ch pr l = Inl e) =
            (creator (surveys l sid) = 0 \<or> block_timestamp l \<ge> endTime (surveys l sid) \<or>
             \<not> isActive (surveys l sid) \<or> hasVoted (surveys l sid) a \<or>
             v < depositRequired (surveys l sid) \<or> \<not> vf ch pr)"
    unfolding result by auto
  have again: "submitResponse vf' a v' sid ch' pr' l'' =
              (if block_timestamp l'' < endTime (surveys l sid) \<and> isActive (surveys l'' sid)
               then Inl AlreadyVoted else Inl SurveyEnded)"
    if ok: "submitResponse vf a v sid ch pr l = Inr l'" and run: "reach any_call l' l''"
  proof -
    note facts = submitResponse_Inr [OF ok]
    have "later l' l''"
      using run by (rule reach_later)
    moreover have "sid < surveyCount l'"
      using wf_exists [OF wf, of sid] facts(1) unfolding facts(7) by simp
    moreover have "creator (surveys l' sid) \<noteq> 0" "hasVoted (surveys l' sid) a"
      using facts(1) unfolding facts(7) by simp_all
    ultimately have "submitResponse vf' a v' sid ch' pr' l'' =
              (if block_timestamp l'' < endTime (surveys l' sid) \<and> isActive (surveys l'' sid)
               then Inl AlreadyVoted else Inl SurveyEnded)"
      by (rule voted_stays)
    moreover have "endTime (surveys l' sid) = endTime (surveys l sid)"
      unfolding facts(7) by simp
    ultimately show ?thesis by simp
  qed
  show ?thesis
    using result exactly again by blast
qed

lemma run_opened_allowed: "allowed_run any_call run_opened (genesis 0 0)"
  by (simp add: run_opened_def eval_simps any_call_def)

lemma run_opened_fields:
  "creator (surveys (after run_opened) 0) \<noteq> 0"
  "creator (surveys (after run_opened) 7) = 0"
  "block_timestamp (after run_opened) < endTime (surveys (after run_opened) 0)"
  "isActive (surveys (after run_opened) 0)"
  "\<not> hasVoted (surveys (after run_opened) 0) bob"
  "\<not> hasVoted (surveys (after run_opened) 0) carol"
  "depositRequired (surveys (after run_opened) 0) = 1"
  "endTime (surveys (after run_opened) 0) = 60"
  by (simp_all add: after_def run_opened_def eval_simps)

lemma run_voted_step:
  "submitResponse accepting bob 1 0 1 [] (after run_opened) = Inr (after run_voted)"
  by (simp add: after_def run_opened_def run_voted_def eval_simps)

lemma run_closed_step: "reach any_call (after run_voted) (after run_closed)"
proof -
  have step: "exec (NextBlock 60) (after run_voted) = Inr (after run_closed)"
    by (simp add: after_def run_closed_def run_voted_def eval_simps)
  show ?thesis
    using reach.reach_step [OF reach.reach_refl, of any_call "NextBlock 60" "after run_voted"
        "after run_closed"] step
    by (simp add: any_call_def)
qed

theorem submitResponse_rejections_witness:
  "reachable (after run_opened) \<and>
   submitResponse accepting bob 1 0 1 [] (after run_opened) = Inr (after run_voted) \<and>
   submitResponse accepting carol 0 0 1 [] (after run_opened) = Inl InsufficientDeposit \<and>
   submitResponse accepting bob 1 7 1 [] (after run_opened) = Inl SurveyNotFound \<and>
   submitResponse rejecting carol 1 0 1 [] (after run_opened) = Inl InputProofRejected \<and>
   submitResponse accepting bob 9 0 0 [] (after run_voted) = Inl AlreadyVoted \<and>
   submitResponse rejecting bob 9 0 0 [] (after run_voted) = Inl AlreadyVoted \<and>
   submitResponse accepting bob 9 0 0 [] (after run_closed) = Inl SurveyEnded"
proof -
  have reach: "reachable (after run_opened)"
    using run_opened_allowed by (rule allowed_run_reachable)
  note fields = run_opened_fields
  have later_fields: "block_timestamp (after run_voted) = 0"
    "isActive (surveys (after run_voted) 0)"
    "block_timestamp (after run_closed) = 60"
    by (simp_all add: after_def run_closed_def run_voted_def eval_simps)
  have poor: "submitResponse accepting carol 0 0 1 [] (after run_opened) = Inl InsufficientDeposit"
    using submitResponse_rejections [OF reach, where vf = accepting and a = carol and v = 0
        and sid = 0 and ch = 1 and pr = "[]"] fields
    by simp
  have unknown: "submitResponse accepting bob 1 7 1 [] (after run_opened) = Inl SurveyNotFound"
    using submitResponse_rejections [OF reach, where vf = accepting and a = bob and v = 1
        and sid = 7 and ch = 1 and pr = "[]"] fields
    by simp
  have unverified: "submitResponse rejecting carol 1 0 1 [] (after run_opened) =
                      Inl InputProofRejected"
    using submitResponse_rejections [OF reach, where vf = rejecting and a = carol and v = 1
        and sid = 0 and ch = 1 and pr = "[]"] fields
    by (simp add: rejecting_def)
  have twice: "submitResponse accepting bob 9 0 0 [] (after run_voted) = Inl AlreadyVoted"
    using submitResponse_rejections [OF reach, where vf = accepting and a = bob and v = 1
        and sid = 0 and ch = 1 and pr = "[]" and l' = "after run_voted"
        and l'' = "after run_voted" and vf' = accepting and v' = 9 and ch' = 0 and pr' = "[]"]
      run_voted_step reach.reach_refl [of any_call "after run_voted"] fields later_fields
    by simp
  have twice': "submitResponse rejecting bob 9 0 0 [] (after run_voted) = Inl AlreadyVoted"
    using submitResponse_rejections [OF reach, where vf = accepting and a = bob and v = 1
        and sid = 0 and ch = 1 and pr = "[]" and l' = "after run_voted"
        and l'' = "after run_voted" and vf' = rejecting and v' = 9 and ch' = 0 and pr' = "[]"]
      run_voted_step reach.reach_refl [of any_call "after run_voted"] fields later_fields
    by simp
  have late: "submitResponse accepting bob 9 0 0 [] (after run_closed) = Inl SurveyEnded"
    using submitResponse_rejections [OF reach, where vf = accepting and a = bob and v = 1
        and sid = 0 and ch = 1 and pr = "[]" and l' = "after run_voted"
        and l'' = "after run_closed" and vf' = accepting and v' = 9 and ch' = 0 and pr' = "[]"]
      run_voted_step run_closed_step fields later_fields
    by simp
  show ?thesis
    using reach run_voted_step poor unknown unverified twice twice' late by blast
qed

theorem submitResponse_rejections_counterexample:
  "reachable (after run_opened) \<and>
   submitResponse accepting bob 1 0 1 [] (after run_opened) = Inr (after run_voted) \<and>
   reach any_call (after run_voted) (after run_closed) \<and>
   hasVoted (surveys (after run_closed) 0) bob \<and>
   submitResponse accepting bob 1 0 1 [] (after run_closed) = Inl SurveyEnded \<and>
   submitResponse accepting bob 1 0 1 [] (after run_closed) \<noteq> Inl AlreadyVoted \<and>
   creator (surveys (after run_opened) 0) \<noteq> 0 \<and>
   block_timestamp (after run_opened) < endTime (surveys (after run_opened) 0) \<and>
   isActive (surveys (after run_opened) 0) \<and>
   \<not> hasVoted (surveys (after run_opened) 0) carol \<and>
   \<not> 1 < depositRequired (surveys (after run_opened) 0) \<and>
   submitResponse rejecting carol 1 0 1 [] (after run_opened) = Inl InputProofRejected"
proof -
  have "reachable (after run_opened)"
    using run_opened_allowed by (rule allowed_run_reachable)
  moreover have "hasVoted (surveys (after run_closed) 0) bob"
    "submitResponse accepting bob 1 0 1 [] (after run_closed) = Inl SurveyEnded"
    by (simp_all add: after_def run_closed_def run_voted_def eval_simps)
  moreover have "submitResponse rejecting carol 1 0 1 [] (after run_opened) =
                   Inl InputProofRejected"
    by (simp add: after_def run_opened_def eval_simps)
  ultimately show ?thesis
    using run_voted_step run_closed_step run_opened_fields by simp
qed

subsection \<open>Runs in two parts\<close>




subsection \<open>Deposits above the requirement\<close>








subsection \<open>Tally conservation\<close>
















end
